theory Spec2Isabelle
  imports Main
begin

section \<open>The syntax validator: \<open>check_syntax\<close> of \<open>email_verifier.py\<close>\<close>

text \<open>
  A Python \<open>str\<close> is modelled by a \<open>string\<close>, the list of its characters. Every
  character the pattern accepts is an ASCII character; a character outside ASCII is one or
  more \<open>char\<close>s above 127 here, which no class of the pattern contains, as in Python.
\<close>

subsection \<open>The fragment of Python's \<open>re\<close> the pattern uses\<close>

text \<open>
  An item of a character class \<open>[...]\<close> is a range \<open>x-y\<close>, compared by code point, or a
  single character.
\<close>

datatype item = Range char char | Lit char

fun in_item :: "item \<Rightarrow> char \<Rightarrow> bool" where
  "in_item (Range lo hi) c = ((of_char lo :: nat) \<le> of_char c \<and> (of_char c :: nat) \<le> of_char hi)"
| "in_item (Lit x) c = (c = x)"

definition in_class :: "item list \<Rightarrow> char \<Rightarrow> bool" where
  "in_class items c = list_ex (\<lambda>i. in_item i c) items"

text \<open>
  \<open>Cls\<close> is a character class, \<open>Chr\<close> a literal character, \<open>Seq\<close> concatenation,
  \<open>Opt r\<close> is \<open>(?:r)?\<close>, \<open>UpTo r n\<close> is \<open>r{0,n}\<close>, \<open>Plus r\<close> is \<open>(?:r)+\<close> and \<open>Eol\<close> is \<open>$\<close>.
\<close>

datatype re = Cls "item list" | Chr char | Seq re re | Opt re | UpTo re nat | Plus re | Eol

text \<open>
  The matcher of \<open>re\<close> backtracks. \<open>remainders r s\<close> lists, in the order the matcher tries
  them, what is left of \<open>s\<close> after each way of matching \<open>r\<close> at the start of \<open>s\<close>. All
  quantifiers of the pattern are greedy: one more repetition is tried before stopping.

  \<open>upto_rem f n\<close> repeats a matcher \<open>f\<close> at most \<open>n\<close> times. \<open>(?:r)+\<close> is \<open>r\<close> followed by
  any number of repetitions of \<open>r\<close>; a repetition that matches consumes a character in this
  pattern, so that on a string \<open>s\<close> there are at most \<open>length s\<close> of them.

  Without the \<open>MULTILINE\<close> flag, \<open>$\<close> matches at the end of the string and just before a
  newline that is the last character of the string.
\<close>

primrec upto_rem :: "(string \<Rightarrow> string list) \<Rightarrow> nat \<Rightarrow> string \<Rightarrow> string list" where
  "upto_rem f 0 s = [s]"
| "upto_rem f (Suc n) s = concat (map (upto_rem f n) (f s)) @ [s]"

primrec remainders :: "re \<Rightarrow> string \<Rightarrow> string list" where
  "remainders (Cls items) =
     (\<lambda>s. case s of [] \<Rightarrow> [] | c # cs \<Rightarrow> if in_class items c then [cs] else [])"
| "remainders (Chr x) = (\<lambda>s. case s of [] \<Rightarrow> [] | c # cs \<Rightarrow> if c = x then [cs] else [])"
| "remainders (Seq a b) = (\<lambda>s. concat (map (remainders b) (remainders a s)))"
| "remainders (Opt a) = (\<lambda>s. remainders a s @ [s])"
| "remainders (UpTo a n) = upto_rem (remainders a) n"
| "remainders (Plus a) =
     (\<lambda>s. concat (map (upto_rem (remainders a) (length s)) (remainders a s)))"
| "remainders Eol = (\<lambda>s. if s = [] \<or> s = [CHR 0x0A] then [s] else [])"

text \<open>
  \<open>re.match(pattern, s)\<close> matches at the start of \<open>s\<close> only, where the \<open>^\<close> of the pattern
  holds. It returns the first match the matcher finds, here the text matched, or \<open>None\<close>.
\<close>

definition re_match :: "re \<Rightarrow> string \<Rightarrow> string option" where
  "re_match r s =
     (case remainders r s of
        [] \<Rightarrow> None
      | rest # _ \<Rightarrow> Some (take (length s - length rest) s))"

subsection \<open>The pattern of line 16\<close>

text \<open>\<open>[a-zA-Z0-9.!#$%&'*+/=?^_`{|}~-]\<close>\<close>

definition local_chars :: "item list" where
  "local_chars =
     [Range CHR ''a'' CHR ''z'', Range CHR ''A'' CHR ''Z'', Range CHR ''0'' CHR ''9'',
      Lit CHR ''.'', Lit CHR ''!'', Lit CHR ''#'', Lit CHR ''$'', Lit CHR ''%'', Lit CHR ''&'',
      Lit CHR 0x27, Lit CHR ''*'', Lit CHR ''+'', Lit CHR ''/'', Lit CHR ''='', Lit CHR ''?'',
      Lit CHR ''^'', Lit CHR ''_'', Lit CHR ''`'', Lit CHR ''{'', Lit CHR ''|'', Lit CHR ''}'',
      Lit CHR ''~'', Lit CHR ''-'']"

text \<open>\<open>[A-Za-z0-9]\<close>\<close>

definition alnum :: "item list" where
  "alnum = [Range CHR ''A'' CHR ''Z'', Range CHR ''a'' CHR ''z'', Range CHR ''0'' CHR ''9'']"

text \<open>\<open>[A-Za-z0-9-]\<close>\<close>

definition alnum_hyphen :: "item list" where
  "alnum_hyphen =
     [Range CHR ''A'' CHR ''Z'', Range CHR ''a'' CHR ''z'', Range CHR ''0'' CHR ''9'',
      Lit CHR ''-'']"

text \<open>\<open>[A-Za-z0-9](?:[A-Za-z0-9-]{0,61}[A-Za-z0-9])?\<close>, which the pattern has twice.\<close>

definition label :: re where
  "label = Seq (Cls alnum) (Opt (Seq (UpTo (Cls alnum_hyphen) 61) (Cls alnum)))"

definition regex :: re where
  "regex =
     Seq (Plus (Cls local_chars))
       (Seq (Chr CHR ''@'')
         (Seq label
           (Seq (Plus (Seq (Chr CHR ''.'') label))
             Eol)))"

definition check_syntax :: "string \<Rightarrow> bool" where
  "check_syntax email = (re_match regex email \<noteq> None)"

section \<open>The SMTP probe: \<open>check_smtp\<close> of \<open>email_verifier.py\<close>\<close>

text \<open>
  \<open>check_smtp\<close> returns one of the strings \<open>"Exists"\<close>, \<open>"DoesNotExist"\<close> and
  \<open>"Unverifiable"\<close>; the three values are the constructors of \<open>mailbox_status\<close>.
\<close>

datatype mailbox_status = Exists | DoesNotExist | Unverifiable

text \<open>
  The exceptions the probe distinguishes. In \<open>smtplib\<close>, \<open>SMTPException\<close> is a subclass of
  \<open>OSError\<close>, \<open>SMTPServerDisconnected\<close> and \<open>SMTPResponseException\<close> are subclasses of
  \<open>SMTPException\<close>, and \<open>SMTPHeloError\<close> and \<open>SMTPConnectError\<close> are subclasses of
  \<open>SMTPResponseException\<close>. \<open>socket.error\<close> is \<open>OSError\<close> and \<open>socket.timeout\<close> is a subclass
  of it. \<open>SMTPOther\<close> stands for every other instance of \<open>SMTPException\<close>, \<open>OtherException\<close>
  for every instance of \<open>Exception\<close> that is not an \<open>OSError\<close> (a \<open>UnicodeError\<close>, say).
\<close>

datatype exn =
    SMTPServerDisconnected
  | SMTPResponseException
  | SMTPHeloError
  | SMTPConnectError
  | SMTPOther
  | SocketTimeout
  | SocketError
  | OtherException

fun is_SMTPException :: "exn \<Rightarrow> bool" where
  "is_SMTPException SMTPServerDisconnected = True"
| "is_SMTPException SMTPResponseException = True"
| "is_SMTPException SMTPHeloError = True"
| "is_SMTPException SMTPConnectError = True"
| "is_SMTPException SMTPOther = True"
| "is_SMTPException SocketTimeout = False"
| "is_SMTPException SocketError = False"
| "is_SMTPException OtherException = False"

fun is_OSError :: "exn \<Rightarrow> bool" where
  "is_OSError OtherException = False"
| "is_OSError e = True"

text \<open>What a call into \<open>smtplib\<close> does: it returns a value or raises.\<close>

datatype 'a outcome = Returns 'a | Raises exn

text \<open>
  What one connection to a mail server does, call by call, in the order \<open>check_smtp\<close> makes
  the calls. The arguments the server sees (the HELO name, the sender, the recipient) are
  arguments of the fields.
\<close>

record host_script =
  connect :: "unit outcome"  \<comment> \<open>\<open>smtplib.SMTP(mx_host, 25, timeout=10)\<close>\<close>
  ehlo :: "int outcome"  \<comment> \<open>the code of the first \<open>server.ehlo()\<close>\<close>
  has_starttls :: bool  \<comment> \<open>\<open>server.has_extn('starttls')\<close>\<close>
  starttls :: "unit outcome"  \<comment> \<open>\<open>server.starttls()\<close>\<close>
  ehlo_tls :: "unit outcome"  \<comment> \<open>the \<open>server.ehlo()\<close> after the upgrade\<close>
  helo :: "string \<Rightarrow> unit outcome"  \<comment> \<open>\<open>server.helo(local_helo)\<close>\<close>
  mail :: "string \<Rightarrow> unit outcome"  \<comment> \<open>\<open>server.mail(sender)\<close>\<close>
  rcpt :: "string \<Rightarrow> int outcome"  \<comment> \<open>the code of \<open>server.rcpt(email)\<close>\<close>
  quit :: "unit outcome"  \<comment> \<open>\<open>server.quit()\<close>\<close>

text \<open>Lines 130 to 138: the interpretation of the RCPT TO response code.\<close>

definition classify :: "int \<Rightarrow> mailbox_status" where
  "classify code =
     (if code = 250 \<or> code = 251 then Exists
      else if code = 550 \<or> code = 551 \<or> code = 553 then DoesNotExist
      else if 400 \<le> code \<and> code < 500 then Unverifiable
      else Unverifiable)"

text \<open>
  Line 119: \<open>local_helo.split('.', 1)[-1] or 'localhost'\<close>, the part of the client's name
  after its first dot (the whole name when it has no dot), or \<open>localhost\<close> when that is empty.
\<close>

definition sender_domain :: "string \<Rightarrow> string" where
  "sender_domain local_helo =
     (let suffix = (if CHR ''.'' \<in> set local_helo
                    then tl (dropWhile (\<lambda>c. c \<noteq> CHR ''.'') local_helo)
                    else local_helo)
      in if suffix = [] then ''localhost'' else suffix)"

text \<open>
  Lines 105 to 138, the body of the inner \<open>try\<close>: the dialogue on an open connection. The
  result is the classification the body returns, or the exception that leaves the body.
  An \<open>SMTPException\<close> raised by \<open>starttls()\<close> or by the \<open>ehlo()\<close> after it is swallowed
  by the \<open>except smtplib.SMTPException: pass\<close> around the two calls; whatever \<open>quit()\<close> does
  is ignored.
\<close>

definition greet :: "host_script \<Rightarrow> string \<Rightarrow> exn + unit" where
  "greet h local_helo =
     (case ehlo h of
        Raises e \<Rightarrow> Inl e
      | Returns code \<Rightarrow>
          if 200 \<le> code \<and> code < 300 \<and> has_starttls h then
            (case starttls h of
               Raises e \<Rightarrow> if is_SMTPException e then Inr () else Inl e
             | Returns _ \<Rightarrow>
                 (case ehlo_tls h of
                    Raises e \<Rightarrow> if is_SMTPException e then Inr () else Inl e
                  | Returns _ \<Rightarrow> Inr ()))
          else
            (case helo h local_helo of
               Raises e \<Rightarrow> Inl e
             | Returns _ \<Rightarrow> Inr ()))"

definition dialogue :: "host_script \<Rightarrow> string \<Rightarrow> string \<Rightarrow> exn + mailbox_status" where
  "dialogue h local_helo email =
     (case greet h local_helo of
        Inl e \<Rightarrow> Inl e
      | Inr _ \<Rightarrow>
          (case mail h (''no-reply@'' @ sender_domain local_helo) of
             Raises e \<Rightarrow> Inl e
           | Returns _ \<Rightarrow>
               (case rcpt h email of
                  Raises e \<Rightarrow> Inl e
                | Returns code \<Rightarrow>
                    (case quit h of
                       Raises _ \<Rightarrow> Inr (classify code)
                     | Returns _ \<Rightarrow> Inr (classify code)))))"

text \<open>
  One iteration of the loop of lines 100 to 164. The constructor call is guarded only by the
  outer \<open>except (SMTPConnectError, SMTPException, socket.error)\<close>, which catches the
  instances of \<open>OSError\<close>; any other exception leaves \<open>check_smtp\<close>. The three handlers of
  the inner \<open>try\<close> catch every \<open>Exception\<close> of the dialogue, and all three print, call
  \<open>quit()\<close> ignoring its errors, and \<open>continue\<close>.
\<close>

datatype attempt = Classified mailbox_status | NextHost exn | Propagated exn

definition try_host :: "host_script \<Rightarrow> string \<Rightarrow> string \<Rightarrow> attempt" where
  "try_host h local_helo email =
     (case connect h of
        Raises e \<Rightarrow> if is_OSError e then NextHost e else Propagated e
      | Returns _ \<Rightarrow>
          (case dialogue h local_helo email of
             Inr status \<Rightarrow> Classified status
           | Inl e \<Rightarrow> NextHost e))"

text \<open>
  The network as the probe sees it: \<open>net k host\<close> is what the server does on the \<open>k\<close>-th
  connection the probe opens (counted from zero), which is the connection to \<open>host\<close>. A
  host that is listed twice may answer differently the second time.

  The loop returns its result, a value or the exception that escaped, together with the
  hosts it has called \<open>smtplib.SMTP\<close> for, in order.
\<close>

type_synonym network = "nat \<Rightarrow> string \<Rightarrow> host_script"

fun smtp_loop ::
  "network \<Rightarrow> string \<Rightarrow> string \<Rightarrow> nat \<Rightarrow> string list \<Rightarrow> (exn + mailbox_status) \<times> string list" where
  "smtp_loop net local_helo email k [] = (Inr Unverifiable, [])"
| "smtp_loop net local_helo email k (mx_host # rest) =
     (case try_host (net k mx_host) local_helo email of
        Classified status \<Rightarrow> (Inr status, [mx_host])
      | Propagated e \<Rightarrow> (Inl e, [mx_host])
      | NextHost _ \<Rightarrow>
          (let (result, contacted) = smtp_loop net local_helo email (Suc k) rest
           in (result, mx_host # contacted)))"

text \<open>
  \<open>check_smtp\<close>. \<open>getfqdn\<close> is the outcome of \<open>socket.getfqdn()\<close> (lines 95 to 98).
\<close>

definition local_helo_of :: "string outcome \<Rightarrow> string" where
  "local_helo_of getfqdn =
     (case getfqdn of
        Raises _ \<Rightarrow> ''localhost''
      | Returns name \<Rightarrow> if name = [] then ''localhost'' else name)"

definition check_smtp ::
  "string outcome \<Rightarrow> network \<Rightarrow> string \<Rightarrow> string list \<Rightarrow> (exn + mailbox_status) \<times> string list" where
  "check_smtp getfqdn net email mx_servers =
     (if mx_servers = [] then (Inr Unverifiable, [])
      else smtp_loop net (local_helo_of getfqdn) email 0 mx_servers)"

text \<open>
  How an attempt on one connection ends. It completes with a status when the connection
  opens and the dialogue returns its classification; otherwise \<open>raised\<close> is the exception
  that ended it, from the constructor or from the dialogue.
\<close>

definition completes :: "host_script \<Rightarrow> string \<Rightarrow> string \<Rightarrow> mailbox_status \<Rightarrow> bool" where
  "completes h local_helo email status =
     (connect h = Returns () \<and> dialogue h local_helo email = Inr status)"

definition raised :: "host_script \<Rightarrow> string \<Rightarrow> string \<Rightarrow> exn option" where
  "raised h local_helo email =
     (case connect h of
        Raises e \<Rightarrow> Some e
      | Returns _ \<Rightarrow>
          (case dialogue h local_helo email of
             Inl e \<Rightarrow> Some e
           | Inr _ \<Rightarrow> None))"

text \<open>
  Three servers for the examples: one that accepts the connection, rejects \<open>EHLO\<close> with 502,
  accepts \<open>HELO\<close> and \<open>MAIL FROM\<close> and answers \<open>RCPT TO\<close> with the given code; one that
  refuses the connection; one that hangs up on \<open>EHLO\<close>.
\<close>

definition answering :: "int \<Rightarrow> host_script" where
  "answering code =
     \<lparr>connect = Returns (), ehlo = Returns 502, has_starttls = False,
      starttls = Returns (), ehlo_tls = Returns (), helo = (\<lambda>_. Returns ()),
      mail = (\<lambda>_. Returns ()), rcpt = (\<lambda>_. Returns code), quit = Returns ()\<rparr>"

definition refusing :: host_script where
  "refusing = (answering 0)\<lparr>connect := Raises SocketError\<rparr>"

definition hanging_up :: host_script where
  "hanging_up = (answering 0)\<lparr>ehlo := Raises SMTPServerDisconnected\<rparr>"

section \<open>The MX resolver: \<open>check_mx_records\<close> of \<open>email_verifier.py\<close>\<close>

text \<open>
  A DNS query returns the records of the answer, in the order of the response, or raises.
  \<open>resolver.resolve\<close> and the IDNA codec are library code: they are parameters of the model.
  \<open>exchange\<close> is \<open>str(rdata.exchange)\<close>, the text of the name.
\<close>

datatype dns_error = NoAnswer | NXDOMAIN | Timeout | OtherDNSError

record rdata =
  preference :: int
  exchange :: string

type_synonym resolver = "string \<Rightarrow> dns_error + rdata list"

text \<open>\<open>_normalize_domain\<close>: \<open>idna\<close> is \<open>None\<close> where \<open>domain.encode("idna")\<close> raises.\<close>

definition normalize_domain :: "(string \<Rightarrow> string option) \<Rightarrow> string \<Rightarrow> string" where
  "normalize_domain idna domain = (case idna domain of None \<Rightarrow> domain | Some ascii \<Rightarrow> ascii)"

text \<open>\<open>s.rstrip(c)\<close> for a single character \<open>c\<close>: every trailing \<open>c\<close> is removed.\<close>

definition rstrip :: "char \<Rightarrow> string \<Rightarrow> string" where
  "rstrip c s = rev (dropWhile (\<lambda>x. x = c) (rev s))"

text \<open>Lines 44 to 52: the loop over the answer that fills \<open>mx_entries\<close>.\<close>

fun mx_entries :: "rdata list \<Rightarrow> (int \<times> string) list" where
  "mx_entries [] = []"
| "mx_entries (r # answers) =
     (let exch = rstrip CHR ''.'' (exchange r);
          pref = preference r
      in if exch = [] \<or> exch = ''.'' then mx_entries answers
         else (pref, exch) # mx_entries answers)"

text \<open>
  Lines 54 to 59. \<open>list.sort\<close> is a stable sort by the key; so is \<open>sort_key\<close>, and a
  stable sort by a key has one result only.
\<close>

definition mx_hosts :: "rdata list \<Rightarrow> string list option" where
  "mx_hosts answers =
     (let entries = mx_entries answers
      in if entries = [] then None
         else Some (map snd (sort_key fst entries)))"

text \<open>Both \<open>except\<close> clauses return \<open>None\<close>; the second one prints first.\<close>

definition check_mx_records ::
  "(string \<Rightarrow> string option) \<Rightarrow> resolver \<Rightarrow> string \<Rightarrow> string list option" where
  "check_mx_records idna resolve domain =
     (case resolve (normalize_domain idna domain) of
        Inl _ \<Rightarrow> None
      | Inr answers \<Rightarrow> mx_hosts answers)"

section \<open>The orchestrator: the loop body of \<open>verify_emails\<close> in \<open>app.py\<close>\<close>

text \<open>\<open>s.split(sep)\<close> for a single character \<open>sep\<close>.\<close>

fun str_split :: "char \<Rightarrow> string \<Rightarrow> string list" where
  "str_split sep [] = [[]]"
| "str_split sep (c # cs) =
     (if c = sep then [] # str_split sep cs
      else (let parts = str_split sep cs in (c # hd parts) # tl parts))"

text \<open>
  What stops the loop body: the \<open>IndexError\<close> of \<open>email.split('@')[1]\<close> on a list of one
  element, or an exception that \<open>check_smtp\<close> lets through. Both reach the
  \<open>except Exception\<close> of line 73, and no row is produced.
\<close>

datatype row_error = IndexError | Uncaught exn

definition domain_of :: "string \<Rightarrow> row_error + string" where
  "domain_of email =
     (case str_split CHR ''@'' email of
        _ # domain # _ \<Rightarrow> Inr domain
      | _ \<Rightarrow> Inl IndexError)"

text \<open>
  The row appended to \<open>results\<close>, under the keys of the dictionary. \<open>SyntaxValid\<close> and
  \<open>DomainHasMX\<close> are the Booleans the row prints as \<open>"Valid"\<close>/\<open>"Invalid"\<close> and
  \<open>"True"\<close>/\<open>"False"\<close>; \<open>OverallStatus\<close> is one of \<open>"Valid"\<close>, \<open>"Risky / Invalid"\<close> and
  \<open>"Invalid Syntax"\<close>.
\<close>

datatype overall_status = Valid | RiskyOrInvalid | InvalidSyntax

record verification_row =
  Email :: string
  SyntaxValid :: bool
  DomainHasMX :: bool
  MailboxExists :: mailbox_status
  OverallStatus :: overall_status

text \<open>What is outside the program: the IDNA codec, the DNS, the client's name, the network.\<close>

record env =
  env_idna :: "string \<Rightarrow> string option"
  env_resolve :: resolver
  env_getfqdn :: "string outcome"
  env_net :: network

text \<open>
  What the body does to the outside, in order: the call of \<open>check_mx_records\<close> with its
  argument, and the hosts \<open>check_smtp\<close> connects to.
\<close>

datatype event = CheckMX string | Connect string

text \<open>Lines 48 to 72, for the \<open>email\<close> of line 47.\<close>

definition verify :: "env \<Rightarrow> string \<Rightarrow> (row_error + verification_row) \<times> event list" where
  "verify e email =
     (let syntax_valid = check_syntax email in
      if syntax_valid then
        (case domain_of email of
           Inl err \<Rightarrow> (Inl err, [])
         | Inr domain \<Rightarrow>
             (let mx_records = check_mx_records (env_idna e) (env_resolve e) domain;
                  (domain_has_mx, probe, contacted) =
                    (case mx_records of
                       Some (h # hs) \<Rightarrow>
                         (let (result, hosts) = check_smtp (env_getfqdn e) (env_net e) email (h # hs)
                          in (True, result, hosts))
                     | _ \<Rightarrow> (False, Inr Unverifiable, []));
                  events = CheckMX domain # map Connect contacted
              in case probe of
                   Inl x \<Rightarrow> (Inl (Uncaught x), events)
                 | Inr mailbox_exists \<Rightarrow>
                     (Inr \<lparr>Email = email, SyntaxValid = syntax_valid,
                           DomainHasMX = domain_has_mx, MailboxExists = mailbox_exists,
                           OverallStatus =
                             (if domain_has_mx \<and> mailbox_exists = Exists then Valid
                              else RiskyOrInvalid)\<rparr>,
                      events)))
      else
        (Inr \<lparr>Email = email, SyntaxValid = syntax_valid, DomainHasMX = False,
              MailboxExists = Unverifiable, OverallStatus = InvalidSyntax\<rparr>,
         []))"

text \<open>
  An outside for the examples: the domain \<open>good.test\<close> has one MX record, every other domain
  does not exist, and every server answers \<open>RCPT TO\<close> with the given code.
\<close>

definition example_env :: "int \<Rightarrow> env" where
  "example_env code =
     \<lparr>env_idna = Some,
      env_resolve =
        (\<lambda>d. if d = ''good.test''
              then Inr [\<lparr>preference = 10, exchange = ''mx.good.test.''\<rparr>]
              else Inl NXDOMAIN),
      env_getfqdn = Returns ''probe.example.org'',
      env_net = (\<lambda>k host. answering code)\<rparr>"

section \<open>The specification's words\<close>

text \<open>
  The address shape of the specification: local-part characters from the safe set
  (letters, digits and \<open>. ! # $ % & ' * + / = ? ^ _ ` { | } ~ -\<close>), then \<open>@\<close>, then
  dot-separated labels with at least one separator; a label starts and ends with a letter
  or digit, has letters, digits and hyphens inside, and is at most 63 characters long.
\<close>

definition is_letter :: "char \<Rightarrow> bool" where
  "is_letter c =
     ((of_char CHR ''a'' :: nat) \<le> of_char c \<and> (of_char c :: nat) \<le> of_char CHR ''z'' \<or>
      (of_char CHR ''A'' :: nat) \<le> of_char c \<and> (of_char c :: nat) \<le> of_char CHR ''Z'')"

definition is_digit :: "char \<Rightarrow> bool" where
  "is_digit c = ((of_char CHR ''0'' :: nat) \<le> of_char c \<and> (of_char c :: nat) \<le> of_char CHR ''9'')"

definition safe_char :: "char \<Rightarrow> bool" where
  "safe_char c = (is_letter c \<or> is_digit c \<or> c \<in> set (''.!#$%&'' @ [CHR 0x27] @ ''*+/=?^_`{|}~-''))"

definition spec_label :: "string \<Rightarrow> bool" where
  "spec_label l =
     (l \<noteq> [] \<and>
      (is_letter (hd l) \<or> is_digit (hd l)) \<and>
      (is_letter (last l) \<or> is_digit (last l)) \<and>
      list_all (\<lambda>c. is_letter c \<or> is_digit c \<or> c = CHR ''-'') (butlast (tl l)) \<and>
      length l \<le> 63)"

definition spec_address :: "string \<Rightarrow> bool" where
  "spec_address s =
     (case str_split CHR ''@'' s of
        [local_part, domain] \<Rightarrow>
          local_part \<noteq> [] \<and> list_all safe_char local_part \<and>
          (let labels = str_split CHR ''.'' domain
           in 2 \<le> length labels \<and> list_all spec_label labels)
      | _ \<Rightarrow> False)"

text \<open>
  The same shape, as a decomposition of the string: a local part, \<open>@\<close>, a first label and
  one or more further labels, each after a dot.
\<close>

definition address_shape :: "string \<Rightarrow> bool" where
  "address_shape s =
     (\<exists>local_part l0 ls.
        s = local_part @ CHR ''@'' # l0 @ concat (map ((#) CHR ''.'') ls) \<and>
        local_part \<noteq> [] \<and> list_all safe_char local_part \<and>
        spec_label l0 \<and> ls \<noteq> [] \<and> list_all spec_label ls)"

text \<open>The specification's domain of an address: what follows its last \<open>@\<close>.\<close>

definition after_last :: "char \<Rightarrow> string \<Rightarrow> string" where
  "after_last c s = rev (takeWhile (\<lambda>x. x \<noteq> c) (rev s))"

text \<open>
  The specification's Null MX test: the exchange with its trailing root-label dot removed
  is empty or the root.
\<close>

definition strip_root_dot :: "string \<Rightarrow> string" where
  "strip_root_dot h = (if h \<noteq> [] \<and> last h = CHR ''.'' then butlast h else h)"

definition spec_null_mx :: "rdata \<Rightarrow> bool" where
  "spec_null_mx r = (strip_root_dot (exchange r) = [] \<or> strip_root_dot (exchange r) = ''.'')"

section \<open>The language of a pattern\<close>

text \<open>
  The strings a pattern without \<open>$\<close> matches in full. The matcher is compared with it
  below: what \<open>remainders\<close> lists are the rests of the string after a prefix in the language.
\<close>

primrec lang :: "re \<Rightarrow> string set" where
  "lang (Cls items) = {[c] | c. in_class items c}"
| "lang (Chr x) = {[x]}"
| "lang (Seq a b) = {p @ q | p q. p \<in> lang a \<and> q \<in> lang b}"
| "lang (Opt a) = insert [] (lang a)"
| "lang (UpTo a n) = {concat ps | ps. length ps \<le> n \<and> set ps \<subseteq> lang a}"
| "lang (Plus a) = {concat ps | ps. ps \<noteq> [] \<and> set ps \<subseteq> lang a}"
| "lang Eol = {}"

primrec anchor_free :: "re \<Rightarrow> bool" where
  "anchor_free (Cls items) = True"
| "anchor_free (Chr x) = True"
| "anchor_free (Seq a b) = (anchor_free a \<and> anchor_free b)"
| "anchor_free (Opt a) = anchor_free a"
| "anchor_free (UpTo a n) = anchor_free a"
| "anchor_free (Plus a) = anchor_free a"
| "anchor_free Eol = False"

section \<open>Theorems\<close>

subsection \<open>The classification\<close>

text \<open>
  C4: the classification of a RCPT TO response code is \<open>Exists\<close> for 250 and 251,
  \<open>DoesNotExist\<close> for 550, 551 and 553, and \<open>Unverifiable\<close> for every other code, the
  other 4xx codes among them.
\<close>

theorem classify_table:
  "classify code =
     (if code \<in> {250, 251} then Exists
      else if code \<in> {550, 551, 553} then DoesNotExist
      else Unverifiable)"
  by (simp add: classify_def)

subsection \<open>The SMTP probe\<close>

lemma try_host_completes:
  "completes h lh em st \<Longrightarrow> try_host h lh em = Classified st"
  by (simp add: completes_def try_host_def)

lemma try_host_raised:
  "raised h lh em = Some x \<Longrightarrow> is_OSError x \<Longrightarrow> try_host h lh em = NextHost x"
  by (auto simp: raised_def try_host_def split: outcome.splits sum.splits)

lemma smtp_loop_prefix:
  "smtp_loop net lh em k hosts = (res, log) \<Longrightarrow> log = take (length log) hosts"
  by (induction hosts arbitrary: k res log) (auto split: attempt.splits prod.splits)

lemma smtp_loop_decisive:
  "smtp_loop net lh em k hosts = (res, log) \<Longrightarrow> i < length log \<Longrightarrow>
   try_host (net (k + i) (hosts ! i)) lh em = Classified st \<Longrightarrow>
   res = Inr st \<and> log = take (Suc i) hosts"
proof (induction hosts arbitrary: k i res log)
  case Nil
  then show ?case by simp
next
  case (Cons h hs)
  show ?case
  proof (cases i)
    case 0
    with Cons.prems show ?thesis by (auto split: attempt.splits prod.splits)
  next
    case (Suc j)
    with Cons.prems Cons.IH[of "Suc k" _ _ j] show ?thesis
      by (auto split: attempt.splits prod.splits)
  qed
qed

lemma smtp_loop_next:
  "smtp_loop net lh em k hosts = (res, log) \<Longrightarrow> i < length log \<Longrightarrow>
   try_host (net (k + i) (hosts ! i)) lh em = NextHost x \<Longrightarrow> Suc i < length hosts \<Longrightarrow>
   Suc i < length log \<and> log ! Suc i = hosts ! Suc i"
proof (induction hosts arbitrary: k i res log)
  case Nil
  then show ?case by simp
next
  case (Cons h hs)
  show ?case
  proof (cases i)
    case 0
    with Cons.prems show ?thesis by (cases hs) (auto split: attempt.splits prod.splits)
  next
    case (Suc j)
    with Cons.prems Cons.IH[of "Suc k" _ _ j] show ?thesis
      by (auto split: attempt.splits prod.splits)
  qed
qed

lemma smtp_loop_skip:
  "(\<And>j. j < length pre \<Longrightarrow> \<exists>x. try_host (net (k + j) (pre ! j)) lh em = NextHost x) \<Longrightarrow>
   smtp_loop net lh em k (pre @ post) =
     (fst (smtp_loop net lh em (k + length pre) post),
      pre @ snd (smtp_loop net lh em (k + length pre) post))"
proof (induction pre arbitrary: k)
  case Nil
  then show ?case by simp
next
  case (Cons h hs)
  from Cons.prems[of 0] obtain x where x: "try_host (net k h) lh em = NextHost x" by auto
  have "\<And>j. j < length hs \<Longrightarrow> \<exists>x. try_host (net (Suc k + j) (hs ! j)) lh em = NextHost x"
    using Cons.prems[of "Suc j" for j] by auto
  from Cons.IH[OF this] x show ?case by (simp split: prod.splits)
qed

text \<open>
  C2: when the probe has connected to a host of a non-empty list and the dialogue with it
  completes with a classification, the probe returns that classification and the hosts it
  has contacted end with this host: no later host is contacted. The classification may be
  \<open>Unverifiable\<close>.
\<close>

theorem check_smtp_decisive:
  assumes "mx_servers \<noteq> []"
    and "check_smtp getfqdn net email mx_servers = (result, contacted)"
    and "i < length contacted"
    and "completes (net i (mx_servers ! i)) (local_helo_of getfqdn) email status"
  shows "result = Inr status \<and> contacted = take (Suc i) mx_servers"
proof -
  from assms(1,2) have "smtp_loop net (local_helo_of getfqdn) email 0 mx_servers = (result, contacted)"
    by (simp add: check_smtp_def)
  moreover note assms(3)
  moreover from assms(4)
  have "try_host (net (0 + i) (mx_servers ! i)) (local_helo_of getfqdn) email = Classified status"
    by (simp add: try_host_completes)
  ultimately show ?thesis by (rule smtp_loop_decisive)
qed

text \<open>
  The decisive host is reached: when every host before the \<open>i\<close>-th raises an \<open>OSError\<close> and
  the \<open>i\<close>-th completes, the probe returns its classification.
\<close>

lemma check_smtp_first_answer:
  assumes "i < length mx_servers"
    and "\<And>j. j < i \<Longrightarrow> \<exists>x. is_OSError x \<and> raised (net j (mx_servers ! j)) (local_helo_of getfqdn) email = Some x"
    and "completes (net i (mx_servers ! i)) (local_helo_of getfqdn) email status"
  shows "check_smtp getfqdn net email mx_servers = (Inr status, take (Suc i) mx_servers)"
proof -
  let ?lh = "local_helo_of getfqdn"
  let ?pre = "take i mx_servers" and ?post = "drop i mx_servers"
  have split: "mx_servers = ?pre @ ?post" by simp
  have len: "length ?pre = i" using assms(1) by simp
  have "\<And>j. j < length ?pre \<Longrightarrow> \<exists>x. try_host (net (0 + j) (?pre ! j)) ?lh email = NextHost x"
    using assms(2) len by (auto dest: try_host_raised)
  from smtp_loop_skip[of ?pre net 0 ?lh email ?post, OF this]
  have skip: "smtp_loop net ?lh email 0 mx_servers =
     (fst (smtp_loop net ?lh email i ?post), ?pre @ snd (smtp_loop net ?lh email i ?post))"
    using len by simp
  from assms(1) obtain rest where post: "?post = mx_servers ! i # rest"
    by (metis Cons_nth_drop_Suc)
  have "smtp_loop net ?lh email i ?post = (Inr status, [mx_servers ! i])"
    unfolding post using assms(3) by (simp add: try_host_completes)
  with skip have "smtp_loop net ?lh email 0 mx_servers = (Inr status, ?pre @ [mx_servers ! i])"
    by simp
  moreover have "?pre @ [mx_servers ! i] = take (Suc i) mx_servers"
    using assms(1) by (simp add: take_Suc_conv_app_nth)
  moreover have "mx_servers \<noteq> []" using assms(1) by auto
  ultimately show ?thesis by (simp add: check_smtp_def)
qed

text \<open>
  C3: on the empty list the probe returns \<open>Unverifiable\<close>; when every host of the list raises
  a transport or protocol exception (an \<open>OSError\<close>, from the constructor or the dialogue),
  the probe contacts them all and returns \<open>Unverifiable\<close>; and when a contacted host raises
  such an exception and is not the last of the list, the next host of the list is contacted
  next.
\<close>

theorem check_smtp_next_host:
  "check_smtp getfqdn net email [] = (Inr Unverifiable, []) \<and>
   ((\<forall>i<length mx_servers. \<exists>x. is_OSError x \<and>
        raised (net i (mx_servers ! i)) (local_helo_of getfqdn) email = Some x) \<longrightarrow>
    check_smtp getfqdn net email mx_servers = (Inr Unverifiable, mx_servers)) \<and>
   (check_smtp getfqdn net email mx_servers = (result, contacted) \<and> i < length contacted \<and>
    raised (net i (mx_servers ! i)) (local_helo_of getfqdn) email = Some x \<and> is_OSError x \<and>
    Suc i < length mx_servers \<longrightarrow>
    Suc i < length contacted \<and> contacted ! Suc i = mx_servers ! Suc i)"
proof (intro conjI impI)
  show "check_smtp getfqdn net email [] = (Inr Unverifiable, [])"
    by (simp add: check_smtp_def)
next
  let ?lh = "local_helo_of getfqdn"
  assume all: "\<forall>i<length mx_servers. \<exists>x. is_OSError x \<and>
        raised (net i (mx_servers ! i)) ?lh email = Some x"
  then have "\<And>j. j < length mx_servers \<Longrightarrow>
      \<exists>x. try_host (net (0 + j) (mx_servers ! j)) ?lh email = NextHost x"
    by (auto dest: try_host_raised)
  from smtp_loop_skip[of mx_servers net 0 ?lh email "[]", OF this]
  have "smtp_loop net ?lh email 0 mx_servers = (Inr Unverifiable, mx_servers)" by simp
  then show "check_smtp getfqdn net email mx_servers = (Inr Unverifiable, mx_servers)"
    by (simp add: check_smtp_def)
next
  let ?lh = "local_helo_of getfqdn"
  assume a: "check_smtp getfqdn net email mx_servers = (result, contacted) \<and> i < length contacted \<and>
    raised (net i (mx_servers ! i)) ?lh email = Some x \<and> is_OSError x \<and>
    Suc i < length mx_servers"
  then have ne: "mx_servers \<noteq> []" by auto
  with a have loop: "smtp_loop net ?lh email 0 mx_servers = (result, contacted)"
    by (simp add: check_smtp_def)
  from a have "try_host (net (0 + i) (mx_servers ! i)) ?lh email = NextHost x"
    by (simp add: try_host_raised)
  with loop a have "Suc i < length contacted \<and> contacted ! Suc i = mx_servers ! Suc i"
    by (intro smtp_loop_next[of net ?lh email 0 mx_servers result contacted i x]) simp_all
  then show "Suc i < length contacted" and "contacted ! Suc i = mx_servers ! Suc i" by simp_all
qed


lemmas script_defs =
  completes_def raised_def dialogue_def greet_def answering_def refusing_def hanging_up_def
  local_helo_of_def classify_def

text \<open>
  C2 at an example: the first of three hosts refuses the connection, the second answers
  \<open>RCPT TO\<close> with 450; the result is \<open>Unverifiable\<close> and the third host is not contacted.
\<close>

theorem check_smtp_decisive_witness:
  "[''mx1.flaky.test'', ''mx2.flaky.test'', ''mx3.flaky.test''] \<noteq> [] \<and>
   check_smtp (Returns ''probe.example.org'') (\<lambda>k host. if k = 0 then refusing else answering 450)
     ''user@flaky.test'' [''mx1.flaky.test'', ''mx2.flaky.test'', ''mx3.flaky.test'']
     = (Inr Unverifiable, [''mx1.flaky.test'', ''mx2.flaky.test'']) \<and>
   completes (answering 450) ''probe.example.org'' ''user@flaky.test'' Unverifiable"
proof -
  let ?hosts = "[''mx1.flaky.test'', ''mx2.flaky.test'', ''mx3.flaky.test'']"
  let ?net = "\<lambda>(k::nat) (host::string). if k = 0 then refusing else answering 450"
  let ?fq = "Returns ''probe.example.org''"
  obtain result contacted
    where run: "check_smtp ?fq ?net ''user@flaky.test'' ?hosts = (result, contacted)"
    by (cases "check_smtp ?fq ?net ''user@flaky.test'' ?hosts") simp
  then have contacted: "contacted = [''mx1.flaky.test'', ''mx2.flaky.test'']"
    by (auto simp: check_smtp_def try_host_def script_defs)
  have ne: "?hosts \<noteq> []" by simp
  have i: "Suc 0 < length contacted" using contacted by simp
  have c: "completes (?net (Suc 0) (?hosts ! Suc 0)) (local_helo_of ?fq) ''user@flaky.test'' Unverifiable"
    by (simp add: script_defs)
  from check_smtp_decisive[OF ne run i c] run c show ?thesis
    by (simp add: local_helo_of_def)
qed

text \<open>
  C3 at an example: the first host refuses the connection and the second hangs up on
  \<open>EHLO\<close>; both are contacted, in order, and the result is \<open>Unverifiable\<close>.
\<close>

theorem check_smtp_next_host_witness:
  "check_smtp (Returns ''probe.example.org'') (\<lambda>k host. if k = 0 then refusing else hanging_up)
     ''user@down.test'' [''mx1.down.test'', ''mx2.down.test'']
     = (Inr Unverifiable, [''mx1.down.test'', ''mx2.down.test'']) \<and>
   raised refusing ''probe.example.org'' ''user@down.test'' = Some SocketError \<and>
   raised hanging_up ''probe.example.org'' ''user@down.test'' = Some SMTPServerDisconnected \<and>
   is_OSError SocketError \<and> is_OSError SMTPServerDisconnected"
proof -
  let ?hosts = "[''mx1.down.test'', ''mx2.down.test'']"
  let ?net = "\<lambda>(k::nat) (host::string). if k = 0 then refusing else hanging_up"
  let ?fq = "Returns ''probe.example.org''"
  have r0: "raised refusing ''probe.example.org'' ''user@down.test'' = Some SocketError"
    by (simp add: script_defs)
  have r1: "raised hanging_up ''probe.example.org'' ''user@down.test'' = Some SMTPServerDisconnected"
    by (simp add: script_defs)
  have lh: "local_helo_of ?fq = ''probe.example.org''" by (simp add: local_helo_of_def)
  have "\<forall>i<length ?hosts. \<exists>x. is_OSError x \<and>
          raised (?net i (?hosts ! i)) (local_helo_of ?fq) ''user@down.test'' = Some x"
    unfolding lh using r0 r1 by (auto simp: less_Suc_eq)
  with check_smtp_next_host[of ?fq ?net "''user@down.test''" ?hosts "Inr Unverifiable" ?hosts 0 SocketError]
  have run: "check_smtp ?fq ?net ''user@down.test'' ?hosts = (Inr Unverifiable, ?hosts)"
    by blast
  have "0 < length ?hosts \<and> raised (?net 0 (?hosts ! 0)) (local_helo_of ?fq) ''user@down.test'' = Some SocketError
        \<and> is_OSError SocketError \<and> Suc 0 < length ?hosts"
    unfolding lh using r0 by simp
  with run check_smtp_next_host[of ?fq ?net "''user@down.test''" ?hosts "Inr Unverifiable" ?hosts 0 SocketError]
  have "Suc 0 < length ?hosts \<and> ?hosts ! Suc 0 = ?hosts ! Suc 0" by blast
  with run r0 r1 show ?thesis by simp
qed

subsection \<open>The MX resolver\<close>

lemma mx_entries_append: "mx_entries (xs @ ys) = mx_entries xs @ mx_entries ys"
  by (induction xs) (simp_all add: Let_def)

lemma spec_null_mx_exchange:
  assumes "spec_null_mx r"
  shows "exchange r = [] \<or> exchange r = ''.'' \<or> exchange r = ''..''"
proof (cases "exchange r \<noteq> [] \<and> last (exchange r) = CHR ''.''")
  case True
  then have h: "exchange r = butlast (exchange r) @ ''.''"
    by (metis append_butlast_last_id)
  from True assms have "butlast (exchange r) = [] \<or> butlast (exchange r) = ''.''"
    by (simp add: spec_null_mx_def strip_root_dot_def)
  with h show ?thesis by auto
next
  case False
  with assms have "exchange r = [] \<or> exchange r = ''.''"
    by (auto simp: spec_null_mx_def strip_root_dot_def)
  then show ?thesis by auto
qed

lemma spec_null_mx_rstrip: "spec_null_mx r \<Longrightarrow> rstrip CHR ''.'' (exchange r) = []"
  by (drule spec_null_mx_exchange) (auto simp: rstrip_def)

lemma mx_entries_null: "\<forall>r\<in>set answers. spec_null_mx r \<Longrightarrow> mx_entries answers = []"
  by (induction answers) (simp_all add: Let_def spec_null_mx_rstrip)

text \<open>
  C5: the hosts the resolver returns are the exchanges of a list of entries that is sorted
  ascending by preference and in which, for every preference, the entries of that
  preference are the surviving records of that preference in the order of the response.
\<close>

theorem check_mx_records_sorted_stable:
  assumes "check_mx_records idna resolve domain = Some hosts"
  shows "\<exists>answers entries.
           resolve (normalize_domain idna domain) = Inr answers \<and>
           hosts = map snd entries \<and>
           sorted (map fst entries) \<and>
           (\<forall>p. filter (\<lambda>e. fst e = p) entries = filter (\<lambda>e. fst e = p) (mx_entries answers))"
proof -
  from assms obtain answers
    where a: "resolve (normalize_domain idna domain) = Inr answers" "mx_hosts answers = Some hosts"
    by (auto simp: check_mx_records_def split: sum.splits)
  let ?entries = "sort_key fst (mx_entries answers)"
  from a(2) have "hosts = map snd ?entries"
    by (auto simp: mx_hosts_def Let_def split: if_splits)
  moreover have "sorted (map fst ?entries)" by (rule sorted_sort_key)
  moreover have "\<forall>p. filter (\<lambda>e. fst e = p) ?entries = filter (\<lambda>e. fst e = p) (mx_entries answers)"
    by (simp add: sort_key_stable)
  ultimately show ?thesis using a(1) by blast
qed

text \<open>
  C5 at an example: preferences 20, 10, 10 in the response; the two records of preference
  10 come first, in their order of the response.
\<close>

theorem check_mx_records_sorted_stable_witness:
  "check_mx_records Some
     (\<lambda>d. if d = ''example.com''
           then Inr [\<lparr>preference = 20, exchange = ''mx2.example.com.''\<rparr>,
                     \<lparr>preference = 10, exchange = ''mxa.example.com.''\<rparr>,
                     \<lparr>preference = 10, exchange = ''mxb.example.com.''\<rparr>]
           else Inl NXDOMAIN)
     ''example.com''
   = Some [''mxa.example.com'', ''mxb.example.com'', ''mx2.example.com''] \<and>
   (\<exists>entries :: (int \<times> string) list.
      [''mxa.example.com'', ''mxb.example.com'', ''mx2.example.com''] = map snd entries \<and>
      sorted (map fst entries) \<and>
      filter (\<lambda>e. fst e = 10) entries = [(10, ''mxa.example.com''), (10, ''mxb.example.com'')])"
proof -
  let ?answers = "[\<lparr>preference = 20, exchange = ''mx2.example.com.''\<rparr>,
                     \<lparr>preference = 10, exchange = ''mxa.example.com.''\<rparr>,
                     \<lparr>preference = 10, exchange = ''mxb.example.com.''\<rparr>]"
  let ?resolve = "\<lambda>d. if d = ''example.com'' then Inr ?answers else Inl NXDOMAIN"
  let ?hosts = "[''mxa.example.com'', ''mxb.example.com'', ''mx2.example.com'']"
  have ev: "check_mx_records Some ?resolve ''example.com'' = Some ?hosts"
    by (simp add: check_mx_records_def normalize_domain_def mx_hosts_def rstrip_def Let_def)
  from check_mx_records_sorted_stable[OF ev] obtain answers and entries :: "(int \<times> string) list" where
    e: "(if normalize_domain Some ''example.com'' = ''example.com'' then Inr ?answers else Inl NXDOMAIN)
          = Inr answers" "?hosts = map snd entries"
       "sorted (map fst entries)"
       "\<forall>p. filter (\<lambda>e. fst e = p) entries = filter (\<lambda>e. fst e = p) (mx_entries answers)"
    by (elim exE conjE) (rule that)
  from e(1) have "answers = ?answers" by (simp add: normalize_domain_def)
  with e(4) have f: "filter (\<lambda>e. fst e = 10) entries = [(10, ''mxa.example.com''), (10, ''mxb.example.com'')]"
    by (simp add: rstrip_def Let_def)
  have "\<exists>entries :: (int \<times> string) list.
      ?hosts = map snd entries \<and> sorted (map fst entries) \<and>
      filter (\<lambda>e. fst e = 10) entries = [(10, ''mxa.example.com''), (10, ''mxb.example.com'')]"
    using e(2,3) f by (intro exI[of _ entries] conjI)
  with ev show ?thesis by (rule conjI)
qed

text \<open>
  C6: a record whose exchange, with the trailing root-label dot removed, is empty or the
  root \<open>.\<close> contributes nothing to the result; when every record of the answer is such a
  record, the result is \<open>None\<close>, the resolver's NotFound.
\<close>

theorem null_mx_discarded:
  "(spec_null_mx r \<longrightarrow> mx_hosts (before @ r # after) = mx_hosts (before @ after)) \<and>
   ((\<forall>r\<in>set answers. spec_null_mx r) \<longrightarrow> mx_hosts answers = None) \<and>
   (resolve (normalize_domain idna domain) = Inr answers \<and> (\<forall>r\<in>set answers. spec_null_mx r) \<longrightarrow>
      check_mx_records idna resolve domain = None)"
proof (intro conjI impI)
  assume "spec_null_mx r"
  then have "mx_entries (before @ r # after) = mx_entries (before @ after)"
    by (simp add: mx_entries_append spec_null_mx_rstrip Let_def)
  then show "mx_hosts (before @ r # after) = mx_hosts (before @ after)"
    by (simp add: mx_hosts_def)
next
  assume "\<forall>r\<in>set answers. spec_null_mx r"
  then show "mx_hosts answers = None"
    by (simp add: mx_hosts_def mx_entries_null)
next
  assume "resolve (normalize_domain idna domain) = Inr answers \<and> (\<forall>r\<in>set answers. spec_null_mx r)"
  then show "check_mx_records idna resolve domain = None"
    by (simp add: check_mx_records_def mx_hosts_def mx_entries_null)
qed

text \<open>
  C6 at an example: the Null MX record \<open>0 .\<close> is dropped beside another record, and alone
  it gives \<open>None\<close>.
\<close>

theorem null_mx_discarded_witness:
  "spec_null_mx \<lparr>preference = 0, exchange = ''.''\<rparr> \<and>
   mx_hosts [\<lparr>preference = 10, exchange = ''mx.example.com.''\<rparr>, \<lparr>preference = 0, exchange = ''.''\<rparr>]
     = mx_hosts [\<lparr>preference = 10, exchange = ''mx.example.com.''\<rparr>] \<and>
   mx_hosts [\<lparr>preference = 0, exchange = ''.''\<rparr>] = None \<and>
   check_mx_records Some (\<lambda>d. Inr [\<lparr>preference = 0, exchange = ''.''\<rparr>]) ''nomail.test'' = None"
proof -
  let ?null = "\<lparr>preference = 0, exchange = ''.''\<rparr>"
  let ?mx = "\<lparr>preference = 10, exchange = ''mx.example.com.''\<rparr>"
  have n: "spec_null_mx ?null" by (simp add: spec_null_mx_def strip_root_dot_def)
  then have all: "\<forall>r\<in>set [?null]. spec_null_mx r" by simp
  have r: "(\<lambda>d. Inr [?null]) (normalize_domain Some ''nomail.test'') = (Inr [?null] :: dns_error + rdata list)"
    by simp
  from null_mx_discarded[of ?null "[?mx]" "[]" "[?null]" "\<lambda>d. Inr [?null]" Some "''nomail.test''"] n all r
  show ?thesis by simp
qed

subsection \<open>The syntax validator\<close>

subsubsection \<open>The matcher and the language of a pattern\<close>

lemma upto_rem_set:
  assumes f: "\<And>s t. t \<in> set (f s) \<longleftrightarrow> (\<exists>p\<in>L. s = p @ t)"
  shows "t \<in> set (upto_rem f n s) \<longleftrightarrow> (\<exists>ps. length ps \<le> n \<and> set ps \<subseteq> L \<and> s = concat ps @ t)"
proof (induction n arbitrary: s)
  case 0
  show ?case by auto
next
  case (Suc n)
  show ?case
  proof
    assume "t \<in> set (upto_rem f (Suc n) s)"
    then consider "t = s" | u where "u \<in> set (f s)" "t \<in> set (upto_rem f n u)"
      by auto
    then show "\<exists>ps. length ps \<le> Suc n \<and> set ps \<subseteq> L \<and> s = concat ps @ t"
    proof cases
      case 1
      then have "length ([]::string list) \<le> Suc n \<and> set [] \<subseteq> L \<and> s = concat [] @ t" by simp
      then show ?thesis by blast
    next
      case 2
      from 2(1) f obtain p where p: "p \<in> L" "s = p @ u" by blast
      from 2(2) Suc.IH obtain ps where ps: "length ps \<le> n" "set ps \<subseteq> L" "u = concat ps @ t"
        by blast
      from p ps have "length (p # ps) \<le> Suc n \<and> set (p # ps) \<subseteq> L \<and> s = concat (p # ps) @ t"
        by simp
      then show ?thesis by blast
    qed
  next
    assume "\<exists>ps. length ps \<le> Suc n \<and> set ps \<subseteq> L \<and> s = concat ps @ t"
    then obtain ps where ps: "length ps \<le> Suc n" "set ps \<subseteq> L" "s = concat ps @ t" by blast
    show "t \<in> set (upto_rem f (Suc n) s)"
    proof (cases ps)
      case Nil
      with ps show ?thesis by simp
    next
      case (Cons p qs)
      with ps have "p \<in> L" "s = p @ (concat qs @ t)" by auto
      with f have u: "concat qs @ t \<in> set (f s)" by blast
      from Cons ps have "length qs \<le> n \<and> set qs \<subseteq> L \<and> concat qs @ t = concat qs @ t" by auto
      then have "t \<in> set (upto_rem f n (concat qs @ t))" using Suc.IH by blast
      with u show ?thesis by auto
    qed
  qed
qed

lemma length_le_concat: "\<forall>x\<in>set ps. x \<noteq> [] \<Longrightarrow> length ps \<le> length (concat ps)"
proof (induction ps)
  case Nil
  show ?case by simp
next
  case (Cons p ps)
  then have "p \<noteq> []" "length ps \<le> length (concat ps)" by auto
  then show ?case by (cases p) simp_all
qed

lemma concat_filter_nonempty: "concat (filter (\<lambda>x. x \<noteq> []) ps) = concat ps"
  by (induction ps) auto

lemma plus_rem_set:
  assumes f: "\<And>s t. t \<in> set (f s) \<longleftrightarrow> (\<exists>p\<in>L. s = p @ t)"
  shows "t \<in> set (concat (map (upto_rem f (length s)) (f s))) \<longleftrightarrow>
         (\<exists>ps. ps \<noteq> [] \<and> set ps \<subseteq> L \<and> s = concat ps @ t)"
proof
  assume "t \<in> set (concat (map (upto_rem f (length s)) (f s)))"
  then obtain u where u: "u \<in> set (f s)" "t \<in> set (upto_rem f (length s) u)" by auto
  from u(1) f obtain p where p: "p \<in> L" "s = p @ u" by blast
  from u(2) upto_rem_set[OF f] obtain ps where ps: "set ps \<subseteq> L" "u = concat ps @ t" by blast
  from p ps have "p # ps \<noteq> [] \<and> set (p # ps) \<subseteq> L \<and> s = concat (p # ps) @ t" by simp
  then show "\<exists>ps. ps \<noteq> [] \<and> set ps \<subseteq> L \<and> s = concat ps @ t" by blast
next
  assume "\<exists>ps. ps \<noteq> [] \<and> set ps \<subseteq> L \<and> s = concat ps @ t"
  then obtain ps where ps: "ps \<noteq> []" "set ps \<subseteq> L" "s = concat ps @ t" by blast
  then obtain p qs where "ps = p # qs" by (cases ps) auto
  with ps have pq: "p \<in> L" "set qs \<subseteq> L" "s = p @ concat qs @ t" by auto
  let ?qs = "filter (\<lambda>x. x \<noteq> []) qs"
  from pq f have u: "concat qs @ t \<in> set (f s)" by blast
  have "length ?qs \<le> length (concat ?qs)" by (rule length_le_concat) simp
  also have "\<dots> \<le> length s" using pq(3) by (simp add: concat_filter_nonempty)
  finally have "length ?qs \<le> length s \<and> set ?qs \<subseteq> L \<and> concat qs @ t = concat ?qs @ t"
    using pq(2) by (auto simp: concat_filter_nonempty)
  then have "t \<in> set (upto_rem f (length s) (concat qs @ t))"
    using upto_rem_set[OF f] by blast
  with u show "t \<in> set (concat (map (upto_rem f (length s)) (f s)))" by auto
qed

lemma remainders_Seq:
  "t \<in> set (remainders (Seq a b) s) \<longleftrightarrow> (\<exists>u\<in>set (remainders a s). t \<in> set (remainders b u))"
  by simp

lemma lang_Seq_split:
  "(\<exists>p\<in>lang (Seq a b). s = p @ t) \<longleftrightarrow> (\<exists>p\<in>lang a. \<exists>q\<in>lang b. s = p @ q @ t)"
proof
  assume "\<exists>p\<in>lang (Seq a b). s = p @ t"
  then obtain p q where "p \<in> lang a" "q \<in> lang b" "s = (p @ q) @ t" by auto
  then show "\<exists>p\<in>lang a. \<exists>q\<in>lang b. s = p @ q @ t" by auto
next
  assume "\<exists>p\<in>lang a. \<exists>q\<in>lang b. s = p @ q @ t"
  then obtain p q where pq: "p \<in> lang a" "q \<in> lang b" "s = p @ q @ t" by blast
  then have "p @ q \<in> lang (Seq a b)" by auto
  with pq(3) show "\<exists>p\<in>lang (Seq a b). s = p @ t" by (metis append.assoc)
qed

lemma remainders_lang:
  "anchor_free r \<Longrightarrow> t \<in> set (remainders r s) \<longleftrightarrow> (\<exists>p\<in>lang r. s = p @ t)"
proof (induction r arbitrary: s t)
  case (Cls items)
  show ?case by (cases s) auto
next
  case (Chr x)
  show ?case by (cases s) auto
next
  case (Seq a b)
  then have a: "\<And>s t. t \<in> set (remainders a s) \<longleftrightarrow> (\<exists>p\<in>lang a. s = p @ t)"
    and b: "\<And>s t. t \<in> set (remainders b s) \<longleftrightarrow> (\<exists>p\<in>lang b. s = p @ t)" by simp_all
  have "(\<exists>u\<in>set (remainders a s). t \<in> set (remainders b u)) \<longleftrightarrow>
        (\<exists>p\<in>lang a. \<exists>q\<in>lang b. s = p @ q @ t)"
  proof
    assume "\<exists>u\<in>set (remainders a s). t \<in> set (remainders b u)"
    then obtain u where u: "u \<in> set (remainders a s)" "t \<in> set (remainders b u)" by blast
    from u(1) a obtain p where p: "p \<in> lang a" "s = p @ u" by blast
    from u(2) b obtain q where q: "q \<in> lang b" "u = q @ t" by blast
    from p q show "\<exists>p\<in>lang a. \<exists>q\<in>lang b. s = p @ q @ t" by blast
  next
    assume "\<exists>p\<in>lang a. \<exists>q\<in>lang b. s = p @ q @ t"
    then obtain p q where pq: "p \<in> lang a" "q \<in> lang b" "s = p @ q @ t" by blast
    from pq(1,3) a have "q @ t \<in> set (remainders a s)" by blast
    moreover from pq(2) b have "t \<in> set (remainders b (q @ t))" by blast
    ultimately show "\<exists>u\<in>set (remainders a s). t \<in> set (remainders b u)" by blast
  qed
  then show ?case unfolding remainders_Seq lang_Seq_split .
next
  case (Opt a)
  then have a: "\<And>s t. t \<in> set (remainders a s) \<longleftrightarrow> (\<exists>p\<in>lang a. s = p @ t)" by simp
  have "t \<in> set (remainders (Opt a) s) \<longleftrightarrow> t \<in> set (remainders a s) \<or> t = s" by auto
  also have "\<dots> \<longleftrightarrow> (\<exists>p\<in>lang a. s = p @ t) \<or> s = [] @ t" unfolding a by auto
  also have "\<dots> \<longleftrightarrow> (\<exists>p\<in>lang (Opt a). s = p @ t)" by auto
  finally show ?case .
next
  case (UpTo a n)
  then have a: "\<And>s t. t \<in> set (remainders a s) \<longleftrightarrow> (\<exists>p\<in>lang a. s = p @ t)" by simp
  have "t \<in> set (remainders (UpTo a n) s) \<longleftrightarrow>
        (\<exists>ps. length ps \<le> n \<and> set ps \<subseteq> lang a \<and> s = concat ps @ t)"
    using upto_rem_set[of "remainders a" "lang a" t n s, OF a] by simp
  also have "\<dots> \<longleftrightarrow> (\<exists>p\<in>lang (UpTo a n). s = p @ t)" by auto
  finally show ?case .
next
  case (Plus a)
  then have a: "\<And>s t. t \<in> set (remainders a s) \<longleftrightarrow> (\<exists>p\<in>lang a. s = p @ t)" by simp
  have "t \<in> set (remainders (Plus a) s) \<longleftrightarrow>
        (\<exists>ps. ps \<noteq> [] \<and> set ps \<subseteq> lang a \<and> s = concat ps @ t)"
    using plus_rem_set[of "remainders a" "lang a" t s, OF a] by simp
  also have "\<dots> \<longleftrightarrow> (\<exists>p\<in>lang (Plus a). s = p @ t)" by auto
  finally show ?case .
next
  case Eol
  then show ?case by simp
qed

subsubsection \<open>The classes\<close>

lemma alnum_iff: "in_class alnum c \<longleftrightarrow> is_letter c \<or> is_digit c"
  by (auto simp: in_class_def alnum_def is_letter_def is_digit_def)

lemma alnum_hyphen_iff: "in_class alnum_hyphen c \<longleftrightarrow> is_letter c \<or> is_digit c \<or> c = CHR ''-''"
  by (auto simp: in_class_def alnum_hyphen_def is_letter_def is_digit_def)

lemma local_chars_iff: "in_class local_chars c \<longleftrightarrow> safe_char c"
  by (auto simp: in_class_def local_chars_def safe_char_def is_letter_def is_digit_def)

lemma safe_char_not_at: "safe_char c \<Longrightarrow> c \<noteq> CHR ''@''"
  by (auto simp: safe_char_def is_letter_def is_digit_def)

lemma label_char_not_sep:
  "is_letter c \<or> is_digit c \<or> c = CHR ''-'' \<Longrightarrow> c \<noteq> CHR ''@'' \<and> c \<noteq> CHR ''.'' \<and> c \<noteq> CHR 0x0A"
  by (auto simp: is_letter_def is_digit_def)

lemma singletons_concat:
  "set ps \<subseteq> {[c] | c. P c} \<Longrightarrow> length (concat ps) = length ps \<and> list_all P (concat ps)"
  by (induction ps) auto

lemma concat_singletons: "concat (map (\<lambda>c. [c]) w) = w"
  by (induction w) auto

lemma lang_Plus_Cls: "lang (Plus (Cls C)) = {w. w \<noteq> [] \<and> list_all (in_class C) w}"
proof (intro set_eqI iffI)
  fix w assume "w \<in> lang (Plus (Cls C))"
  then obtain ps where ps: "ps \<noteq> []" "set ps \<subseteq> {[c] | c. in_class C c}" "w = concat ps" by auto
  from singletons_concat[OF ps(2)] ps(3)
  have l: "length w = length ps" "list_all (in_class C) w" by simp_all
  from l(1) ps(1) have "w \<noteq> []" by (cases w) simp_all
  with l(2) show "w \<in> {w. w \<noteq> [] \<and> list_all (in_class C) w}" by simp
next
  fix w assume "w \<in> {w. w \<noteq> [] \<and> list_all (in_class C) w}"
  then have "map (\<lambda>c. [c]) w \<noteq> [] \<and> set (map (\<lambda>c. [c]) w) \<subseteq> lang (Cls C) \<and>
             w = concat (map (\<lambda>c. [c]) w)"
    by (auto simp: concat_singletons list_all_iff)
  then show "w \<in> lang (Plus (Cls C))" unfolding lang.simps by blast
qed

lemma lang_UpTo_Cls: "lang (UpTo (Cls C) n) = {w. length w \<le> n \<and> list_all (in_class C) w}"
proof (intro set_eqI iffI)
  fix w assume "w \<in> lang (UpTo (Cls C) n)"
  then obtain ps where ps: "length ps \<le> n" "set ps \<subseteq> {[c] | c. in_class C c}" "w = concat ps"
    by auto
  from singletons_concat[OF ps(2)] ps(1,3) show "w \<in> {w. length w \<le> n \<and> list_all (in_class C) w}"
    by auto
next
  fix w assume "w \<in> {w. length w \<le> n \<and> list_all (in_class C) w}"
  then have "length (map (\<lambda>c. [c]) w) \<le> n \<and> set (map (\<lambda>c. [c]) w) \<subseteq> lang (Cls C) \<and>
             w = concat (map (\<lambda>c. [c]) w)"
    by (auto simp: concat_singletons list_all_iff)
  then show "w \<in> lang (UpTo (Cls C) n)" unfolding lang.simps by blast
qed


subsubsection \<open>The labels\<close>

lemma in_lang_Seq: "w \<in> lang (Seq a b) \<longleftrightarrow> (\<exists>p q. w = p @ q \<and> p \<in> lang a \<and> q \<in> lang b)"
  by auto

lemma in_lang_Cls: "w \<in> lang (Cls C) \<longleftrightarrow> (\<exists>c. w = [c] \<and> in_class C c)"
  by auto

lemma in_lang_Chr: "w \<in> lang (Chr x) \<longleftrightarrow> w = [x]"
  by simp

lemma in_lang_Opt: "w \<in> lang (Opt a) \<longleftrightarrow> w = [] \<or> w \<in> lang a"
  by simp

lemma in_lang_UpTo_Cls: "w \<in> lang (UpTo (Cls C) n) \<longleftrightarrow> length w \<le> n \<and> list_all (in_class C) w"
  unfolding lang_UpTo_Cls by simp

lemma in_lang_Plus_Cls: "w \<in> lang (Plus (Cls C)) \<longleftrightarrow> w \<noteq> [] \<and> list_all (in_class C) w"
  unfolding lang_Plus_Cls by simp

lemma alnum_hyphen_eq:
  "in_class alnum_hyphen = (\<lambda>c. is_letter c \<or> is_digit c \<or> c = CHR ''-'')"
  by (rule ext) (rule alnum_hyphen_iff)

lemma lang_label_iff:
  "l \<in> lang label \<longleftrightarrow>
     (\<exists>c. in_class alnum c \<and>
        (l = [c] \<or> (\<exists>m d. l = c # m @ [d] \<and> length m \<le> 61 \<and>
                       list_all (in_class alnum_hyphen) m \<and> in_class alnum d)))"
  unfolding label_def in_lang_Seq in_lang_Opt in_lang_Cls in_lang_UpTo_Cls
proof
  assume "\<exists>p q. l = p @ q \<and> (\<exists>c. p = [c] \<and> in_class alnum c) \<and>
     (q = [] \<or> (\<exists>p qa. q = p @ qa \<and> (length p \<le> 61 \<and> list_all (in_class alnum_hyphen) p) \<and>
                  (\<exists>c. qa = [c] \<and> in_class alnum c)))"
  then obtain c q where c: "l = [c] @ q" "in_class alnum c"
    and q: "q = [] \<or> (\<exists>m d. q = m @ [d] \<and> length m \<le> 61 \<and>
              list_all (in_class alnum_hyphen) m \<and> in_class alnum d)"
    by blast
  from q show "\<exists>c. in_class alnum c \<and>
        (l = [c] \<or> (\<exists>m d. l = c # m @ [d] \<and> length m \<le> 61 \<and>
                       list_all (in_class alnum_hyphen) m \<and> in_class alnum d))"
  proof
    assume "q = []"
    with c show ?thesis by auto
  next
    assume "\<exists>m d. q = m @ [d] \<and> length m \<le> 61 \<and>
              list_all (in_class alnum_hyphen) m \<and> in_class alnum d"
    then obtain m d where "q = m @ [d]" "length m \<le> 61"
      "list_all (in_class alnum_hyphen) m" "in_class alnum d" by blast
    with c have "l = c # m @ [d] \<and> length m \<le> 61 \<and>
      list_all (in_class alnum_hyphen) m \<and> in_class alnum d" by simp
    with c(2) show ?thesis by blast
  qed
next
  assume "\<exists>c. in_class alnum c \<and>
        (l = [c] \<or> (\<exists>m d. l = c # m @ [d] \<and> length m \<le> 61 \<and>
                       list_all (in_class alnum_hyphen) m \<and> in_class alnum d))"
  then obtain c where c: "in_class alnum c"
    and l: "l = [c] \<or> (\<exists>m d. l = c # m @ [d] \<and> length m \<le> 61 \<and>
                       list_all (in_class alnum_hyphen) m \<and> in_class alnum d)" by blast
  from l show "\<exists>p q. l = p @ q \<and> (\<exists>c. p = [c] \<and> in_class alnum c) \<and>
     (q = [] \<or> (\<exists>p qa. q = p @ qa \<and> (length p \<le> 61 \<and> list_all (in_class alnum_hyphen) p) \<and>
                  (\<exists>c. qa = [c] \<and> in_class alnum c)))"
  proof
    assume "l = [c]"
    with c have "l = [c] @ [] \<and> (\<exists>c'. [c] = [c'] \<and> in_class alnum c')" by simp
    then show ?thesis by blast
  next
    assume "\<exists>m d. l = c # m @ [d] \<and> length m \<le> 61 \<and>
                       list_all (in_class alnum_hyphen) m \<and> in_class alnum d"
    then obtain m d where md: "l = c # m @ [d]" "length m \<le> 61"
      "list_all (in_class alnum_hyphen) m" "in_class alnum d" by blast
    then have "m @ [d] = m @ [d] \<and> (length m \<le> 61 \<and> list_all (in_class alnum_hyphen) m) \<and>
       (\<exists>c. [d] = [c] \<and> in_class alnum c)" by simp
    then have "\<exists>p qa. m @ [d] = p @ qa \<and> (length p \<le> 61 \<and> list_all (in_class alnum_hyphen) p) \<and>
                  (\<exists>c. qa = [c] \<and> in_class alnum c)" by blast
    moreover from md(1) c have "l = [c] @ (m @ [d]) \<and> (\<exists>c'. [c] = [c'] \<and> in_class alnum c')"
      by simp
    ultimately show ?thesis by blast
  qed
qed

lemma spec_label_iff:
  "spec_label l \<longleftrightarrow>
     (\<exists>c. in_class alnum c \<and>
        (l = [c] \<or> (\<exists>m d. l = c # m @ [d] \<and> length m \<le> 61 \<and>
                       list_all (in_class alnum_hyphen) m \<and> in_class alnum d)))"
proof
  assume s: "spec_label l"
  then obtain c r where l: "l = c # r" by (cases l) (auto simp: spec_label_def)
  from s l have c: "in_class alnum c" by (simp add: spec_label_def alnum_iff)
  show "\<exists>c. in_class alnum c \<and>
        (l = [c] \<or> (\<exists>m d. l = c # m @ [d] \<and> length m \<le> 61 \<and>
                       list_all (in_class alnum_hyphen) m \<and> in_class alnum d))"
  proof (cases "r = []")
    case True
    with l c show ?thesis by auto
  next
    case False
    then have r: "r = butlast r @ [last r]" by simp
    from s l False have "in_class alnum (last r)" "list_all (in_class alnum_hyphen) (butlast r)"
      "length (butlast r) \<le> 61"
      by (auto simp: spec_label_def alnum_iff alnum_hyphen_eq)
    with l r c have "l = c # butlast r @ [last r] \<and> length (butlast r) \<le> 61 \<and>
        list_all (in_class alnum_hyphen) (butlast r) \<and> in_class alnum (last r)"
      by simp
    with c show ?thesis by blast
  qed
next
  assume "\<exists>c. in_class alnum c \<and>
        (l = [c] \<or> (\<exists>m d. l = c # m @ [d] \<and> length m \<le> 61 \<and>
                       list_all (in_class alnum_hyphen) m \<and> in_class alnum d))"
  then show "spec_label l"
    by (auto simp: spec_label_def alnum_iff alnum_hyphen_eq)
qed

lemma lang_label: "l \<in> lang label \<longleftrightarrow> spec_label l"
  unfolding lang_label_iff spec_label_iff ..

lemma anchor_free_label: "anchor_free label"
  by (simp add: label_def)

lemma spec_label_chars:
  "spec_label l \<Longrightarrow> list_all (\<lambda>c. is_letter c \<or> is_digit c \<or> c = CHR ''-'') l"
  unfolding spec_label_iff by (auto simp: alnum_iff alnum_hyphen_iff list_all_iff)


lemma spec_label_last: "spec_label l \<Longrightarrow> l \<noteq> [] \<and> (is_letter (last l) \<or> is_digit (last l))"
  by (simp add: spec_label_def)

lemma lang_dot_label: "p \<in> lang (Seq (Chr CHR ''.'') label) \<longleftrightarrow> (\<exists>l. p = CHR ''.'' # l \<and> spec_label l)"
  unfolding in_lang_Seq in_lang_Chr lang_label by auto

lemma lang_dot_labels:
  "d \<in> lang (Plus (Seq (Chr CHR ''.'') label)) \<longleftrightarrow>
     (\<exists>ls. ls \<noteq> [] \<and> list_all spec_label ls \<and> d = concat (map ((#) CHR ''.'') ls))"
proof
  assume "d \<in> lang (Plus (Seq (Chr CHR ''.'') label))"
  then obtain ps where ps: "ps \<noteq> []" "set ps \<subseteq> lang (Seq (Chr CHR ''.'') label)" "d = concat ps"
    unfolding lang.simps(6) by blast
  from ps(2) have "\<forall>p\<in>set ps. p = CHR ''.'' # tl p \<and> spec_label (tl p)"
    using lang_dot_label by auto
  then have "list_all spec_label (map tl ps)" "map ((#) CHR ''.'') (map tl ps) = ps"
    by (auto simp: list_all_iff intro!: map_idI)
  with ps(1,3) have "map tl ps \<noteq> [] \<and> list_all spec_label (map tl ps) \<and>
      d = concat (map ((#) CHR ''.'') (map tl ps))" by simp
  then show "\<exists>ls. ls \<noteq> [] \<and> list_all spec_label ls \<and> d = concat (map ((#) CHR ''.'') ls)"
    by blast
next
  assume "\<exists>ls. ls \<noteq> [] \<and> list_all spec_label ls \<and> d = concat (map ((#) CHR ''.'') ls)"
  then obtain ls where ls: "ls \<noteq> []" "list_all spec_label ls" "d = concat (map ((#) CHR ''.'') ls)"
    by blast
  let ?ps = "map ((#) CHR ''.'') ls"
  from ls(2) have "set ?ps \<subseteq> lang (Seq (Chr CHR ''.'') label)"
    using lang_dot_label by (auto simp: list_all_iff)
  with ls(1,3) have "?ps \<noteq> [] \<and> set ?ps \<subseteq> lang (Seq (Chr CHR ''.'') label) \<and> d = concat ?ps"
    by simp
  then show "d \<in> lang (Plus (Seq (Chr CHR ''.'') label))"
    unfolding lang.simps(6) by blast
qed


subsubsection \<open>Splitting\<close>

lemma str_split_nonempty: "str_split c s \<noteq> []"
  by (induction s) (auto simp: Let_def)

lemma str_split_no_sep: "c \<notin> set w \<Longrightarrow> str_split c w = [w]"
  by (induction w) (auto simp: Let_def)

lemma str_split_append: "c \<notin> set w \<Longrightarrow> str_split c (w @ c # rest) = w # str_split c rest"
  by (induction w) (auto simp: Let_def)

lemma str_split_join: "hd (str_split c s) @ concat (map ((#) c) (tl (str_split c s))) = s"
proof (induction s)
  case Nil
  show ?case by simp
next
  case (Cons x xs)
  obtain p ps where ps: "str_split c xs = p # ps"
    using str_split_nonempty[of c xs] by (cases "str_split c xs") auto
  with Cons show ?case by (auto simp: Let_def)
qed

lemma str_split_parts: "w \<in> set (str_split c s) \<Longrightarrow> c \<notin> set w"
proof (induction s arbitrary: w)
  case Nil
  then show ?case by simp
next
  case (Cons x xs)
  obtain p ps where ps: "str_split c xs = p # ps"
    using str_split_nonempty[of c xs] by (cases "str_split c xs") auto
  with Cons show ?case by (auto simp: Let_def split: if_splits)
qed

lemma str_split_labels:
  "\<forall>l\<in>set (l0 # ls). c \<notin> set l \<Longrightarrow> str_split c (l0 @ concat (map ((#) c) ls)) = l0 # ls"
proof (induction ls arbitrary: l0)
  case Nil
  then show ?case by (simp add: str_split_no_sep)
next
  case (Cons l ls)
  then have "c \<notin> set l0" and "\<forall>l'\<in>set (l # ls). c \<notin> set l'" by auto
  with Cons.IH[of l] show ?case by (simp add: str_split_append)
qed

subsubsection \<open>The pattern\<close>

lemma rem_local:
  "t \<in> set (remainders (Plus (Cls local_chars)) s) \<longleftrightarrow>
     (\<exists>p. p \<noteq> [] \<and> list_all safe_char p \<and> s = p @ t)"
proof -
  have eq: "in_class local_chars = safe_char" by (rule ext) (rule local_chars_iff)
  have "t \<in> set (remainders (Plus (Cls local_chars)) s) \<longleftrightarrow>
        (\<exists>p\<in>lang (Plus (Cls local_chars)). s = p @ t)"
    by (rule remainders_lang) simp
  also have "\<dots> \<longleftrightarrow> (\<exists>p. p \<noteq> [] \<and> list_all (in_class local_chars) p \<and> s = p @ t)"
    unfolding Bex_def in_lang_Plus_Cls by blast
  finally show ?thesis unfolding eq .
qed

lemma rem_at: "t \<in> set (remainders (Chr x) s) \<longleftrightarrow> s = x # t"
  by (cases s) auto

lemma rem_label: "t \<in> set (remainders label s) \<longleftrightarrow> (\<exists>l. spec_label l \<and> s = l @ t)"
proof -
  have "t \<in> set (remainders label s) \<longleftrightarrow> (\<exists>p\<in>lang label. s = p @ t)"
    by (rule remainders_lang) (rule anchor_free_label)
  then show ?thesis unfolding Bex_def lang_label .
qed

lemma rem_dot_labels:
  "t \<in> set (remainders (Plus (Seq (Chr CHR ''.'') label)) s) \<longleftrightarrow>
     (\<exists>ls. ls \<noteq> [] \<and> list_all spec_label ls \<and> s = concat (map ((#) CHR ''.'') ls) @ t)"
proof -
  have "t \<in> set (remainders (Plus (Seq (Chr CHR ''.'') label)) s) \<longleftrightarrow>
        (\<exists>p\<in>lang (Plus (Seq (Chr CHR ''.'') label)). s = p @ t)"
    by (rule remainders_lang) (simp add: anchor_free_label)
  also have "\<dots> \<longleftrightarrow> (\<exists>ls. ls \<noteq> [] \<and> list_all spec_label ls \<and> s = concat (map ((#) CHR ''.'') ls) @ t)"
    unfolding Bex_def lang_dot_labels by blast
  finally show ?thesis .
qed

lemma rem_eol: "t \<in> set (remainders Eol s) \<longleftrightarrow> t = s \<and> (s = [] \<or> s = [CHR 0x0A])"
  by auto

lemma remainders_regex:
  "t \<in> set (remainders regex s) \<longleftrightarrow>
     (\<exists>p l0 ls. p \<noteq> [] \<and> list_all safe_char p \<and> spec_label l0 \<and> ls \<noteq> [] \<and>
        list_all spec_label ls \<and>
        s = p @ CHR ''@'' # l0 @ concat (map ((#) CHR ''.'') ls) @ t \<and>
        (t = [] \<or> t = [CHR 0x0A]))"
proof
  assume "t \<in> set (remainders regex s)"
  then obtain u1 u2 u3 u4 where
    u: "u1 \<in> set (remainders (Plus (Cls local_chars)) s)"
       "u2 \<in> set (remainders (Chr CHR ''@'') u1)"
       "u3 \<in> set (remainders label u2)"
       "u4 \<in> set (remainders (Plus (Seq (Chr CHR ''.'') label)) u3)"
       "t \<in> set (remainders Eol u4)"
    unfolding regex_def remainders_Seq by blast
  from u(1) obtain p where p: "p \<noteq> []" "list_all safe_char p" "s = p @ u1"
    unfolding rem_local by blast
  from u(2) have u1: "u1 = CHR ''@'' # u2" unfolding rem_at .
  from u(3) obtain l0 where l0: "spec_label l0" "u2 = l0 @ u3" unfolding rem_label by blast
  from u(4) obtain ls where ls: "ls \<noteq> []" "list_all spec_label ls"
      "u3 = concat (map ((#) CHR ''.'') ls) @ u4"
    unfolding rem_dot_labels by blast
  from u(5) have t: "t = u4" "u4 = [] \<or> u4 = [CHR 0x0A]" unfolding rem_eol by simp_all
  from p u1 l0 ls t
  have "p \<noteq> [] \<and> list_all safe_char p \<and> spec_label l0 \<and> ls \<noteq> [] \<and>
        list_all spec_label ls \<and>
        s = p @ CHR ''@'' # l0 @ concat (map ((#) CHR ''.'') ls) @ t \<and>
        (t = [] \<or> t = [CHR 0x0A])"
    by simp
  then show "\<exists>p l0 ls. p \<noteq> [] \<and> list_all safe_char p \<and> spec_label l0 \<and> ls \<noteq> [] \<and>
        list_all spec_label ls \<and>
        s = p @ CHR ''@'' # l0 @ concat (map ((#) CHR ''.'') ls) @ t \<and>
        (t = [] \<or> t = [CHR 0x0A])" by blast
next
  assume "\<exists>p l0 ls. p \<noteq> [] \<and> list_all safe_char p \<and> spec_label l0 \<and> ls \<noteq> [] \<and>
        list_all spec_label ls \<and>
        s = p @ CHR ''@'' # l0 @ concat (map ((#) CHR ''.'') ls) @ t \<and>
        (t = [] \<or> t = [CHR 0x0A])"
  then obtain p l0 ls where a: "p \<noteq> []" "list_all safe_char p" "spec_label l0" "ls \<noteq> []"
      "list_all spec_label ls" "s = p @ CHR ''@'' # l0 @ concat (map ((#) CHR ''.'') ls) @ t"
      "t = [] \<or> t = [CHR 0x0A]" by blast
  let ?u3 = "concat (map ((#) CHR ''.'') ls) @ t"
  let ?u2 = "l0 @ ?u3"
  let ?u1 = "CHR ''@'' # ?u2"
  from a(7) have e: "t \<in> set (remainders Eol t)" unfolding rem_eol by simp
  from a(4,5) have d: "t \<in> set (remainders (Plus (Seq (Chr CHR ''.'') label)) ?u3)"
    unfolding rem_dot_labels by blast
  from a(3) have c: "?u3 \<in> set (remainders label ?u2)" unfolding rem_label by blast
  have b: "?u2 \<in> set (remainders (Chr CHR ''@'') ?u1)" unfolding rem_at ..
  from a(1,2,6) have "?u1 \<in> set (remainders (Plus (Cls local_chars)) s)"
    unfolding rem_local by blast
  with b c d e show "t \<in> set (remainders regex s)"
    unfolding regex_def remainders_Seq by blast
qed

lemma check_syntax_remainders: "check_syntax s \<longleftrightarrow> (\<exists>t. t \<in> set (remainders regex s))"
  by (cases "remainders regex s") (auto simp: check_syntax_def re_match_def)

lemma check_syntax_shape:
  "check_syntax s \<longleftrightarrow> address_shape s \<or> (\<exists>t. s = t @ [CHR 0x0A] \<and> address_shape t)"
proof
  assume "check_syntax s"
  then obtain t p l0 ls where a: "p \<noteq> []" "list_all safe_char p" "spec_label l0" "ls \<noteq> []"
      "list_all spec_label ls" "s = p @ CHR ''@'' # l0 @ concat (map ((#) CHR ''.'') ls) @ t"
      "t = [] \<or> t = [CHR 0x0A]"
    unfolding check_syntax_remainders remainders_regex by blast
  let ?a = "p @ CHR ''@'' # l0 @ concat (map ((#) CHR ''.'') ls)"
  from a(1-5) have sh: "address_shape ?a" unfolding address_shape_def by blast
  from a(7) show "address_shape s \<or> (\<exists>t. s = t @ [CHR 0x0A] \<and> address_shape t)"
  proof
    assume "t = []"
    with a(6) sh show ?thesis by simp
  next
    assume "t = [CHR 0x0A]"
    with a(6) have "s = ?a @ [CHR 0x0A]" by simp
    with sh show ?thesis by blast
  qed
next
  assume "address_shape s \<or> (\<exists>t. s = t @ [CHR 0x0A] \<and> address_shape t)"
  then obtain a t where at: "address_shape a" "s = a @ t" "t = [] \<or> t = [CHR 0x0A]"
    by auto
  from at(1) obtain p l0 ls where a: "p \<noteq> []" "list_all safe_char p" "spec_label l0" "ls \<noteq> []"
      "list_all spec_label ls" "a = p @ CHR ''@'' # l0 @ concat (map ((#) CHR ''.'') ls)"
    unfolding address_shape_def by blast
  from a(6) at(2) have "s = p @ CHR ''@'' # l0 @ concat (map ((#) CHR ''.'') ls) @ t" by simp
  with a(1-5) at(3) have "t \<in> set (remainders regex s)" unfolding remainders_regex by blast
  then show "check_syntax s" unfolding check_syntax_remainders by blast
qed


subsubsection \<open>The two readings of the shape\<close>

lemma spec_address_shape: "spec_address s \<longleftrightarrow> address_shape s"
proof
  assume "spec_address s"
  then obtain local_part domain where sp: "str_split CHR ''@'' s = [local_part, domain]"
    and lp: "local_part \<noteq> []" "list_all safe_char local_part"
    and labels: "2 \<le> length (str_split CHR ''.'' domain)"
      "list_all spec_label (str_split CHR ''.'' domain)"
    by (auto simp: spec_address_def Let_def split: list.splits)
  from str_split_join[of "CHR ''@''" s] sp have s: "s = local_part @ CHR ''@'' # domain" by simp
  from labels(1) obtain l0 l1 ls where l: "str_split CHR ''.'' domain = l0 # l1 # ls"
    by (cases "str_split CHR ''.'' domain" rule: list.exhaust[case_names Nil Cons];
        cases "tl (str_split CHR ''.'' domain)") auto
  from str_split_join[of "CHR ''.''" domain] l
  have d: "domain = l0 @ concat (map ((#) CHR ''.'') (l1 # ls))" by simp
  from labels(2) l have "spec_label l0" "list_all spec_label (l1 # ls)" by simp_all
  with s d lp have "s = local_part @ CHR ''@'' # l0 @ concat (map ((#) CHR ''.'') (l1 # ls)) \<and>
        local_part \<noteq> [] \<and> list_all safe_char local_part \<and>
        spec_label l0 \<and> l1 # ls \<noteq> [] \<and> list_all spec_label (l1 # ls)" by simp
  then show "address_shape s" unfolding address_shape_def by blast
next
  assume "address_shape s"
  then obtain local_part l0 ls where a:
      "s = local_part @ CHR ''@'' # l0 @ concat (map ((#) CHR ''.'') ls)"
      "local_part \<noteq> []" "list_all safe_char local_part"
      "spec_label l0" "ls \<noteq> []" "list_all spec_label ls"
    unfolding address_shape_def by blast
  let ?dom = "l0 @ concat (map ((#) CHR ''.'') ls)"
  have lab: "\<forall>l\<in>set (l0 # ls). CHR ''.'' \<notin> set l \<and> CHR ''@'' \<notin> set l"
  proof
    fix l assume "l \<in> set (l0 # ls)"
    with a(4,6) have "spec_label l" by (auto simp: list_all_iff)
    from spec_label_chars[OF this] show "CHR ''.'' \<notin> set l \<and> CHR ''@'' \<notin> set l"
      using label_char_not_sep by (auto simp: list_all_iff)
  qed
  from a(3) have at_local: "CHR ''@'' \<notin> set local_part"
    using safe_char_not_at by (auto simp: list_all_iff)
  from lab have at_dom: "CHR ''@'' \<notin> set ?dom" by auto
  from at_local at_dom a(1) have sp: "str_split CHR ''@'' s = [local_part, ?dom]"
    by (simp add: str_split_append str_split_no_sep)
  from lab have "\<forall>l\<in>set (l0 # ls). CHR ''.'' \<notin> set l" by blast
  then have labels: "str_split CHR ''.'' ?dom = l0 # ls" by (rule str_split_labels)
  from a(5) have "2 \<le> length (l0 # ls)" by (cases ls) simp_all
  with sp labels a(2,3,4,6) show "spec_address s"
    by (simp add: spec_address_def Let_def)
qed

lemma check_syntax_iff:
  "check_syntax s \<longleftrightarrow> spec_address s \<or> (\<exists>t. s = t @ [CHR 0x0A] \<and> spec_address t)"
  unfolding check_syntax_shape spec_address_shape ..

lemma spec_address_split:
  assumes "spec_address s"
  shows "\<exists>local_part domain. s = local_part @ CHR ''@'' # domain \<and>
           CHR ''@'' \<notin> set local_part \<and> CHR ''@'' \<notin> set domain"
proof -
  from assms obtain local_part domain where sp: "str_split CHR ''@'' s = [local_part, domain]"
    by (auto simp: spec_address_def split: list.splits)
  from str_split_join[of "CHR ''@''" s] sp have "s = local_part @ CHR ''@'' # domain" by simp
  moreover from str_split_parts[of _ "CHR ''@''" s] sp
  have "CHR ''@'' \<notin> set local_part" "CHR ''@'' \<notin> set domain" by simp_all
  ultimately show ?thesis by blast
qed

lemma spec_address_last:
  assumes "spec_address s"
  shows "s \<noteq> [] \<and> last s \<noteq> CHR 0x0A"
proof -
  from assms obtain local_part l0 ls where a:
      "s = local_part @ CHR ''@'' # l0 @ concat (map ((#) CHR ''.'') ls)"
      "ls \<noteq> []" "list_all spec_label ls"
    unfolding spec_address_shape address_shape_def by blast
  from a(2) have ls: "ls = butlast ls @ [last ls]" by simp
  from a(2,3) have sl: "spec_label (last ls)" by (simp add: list_all_iff)
  then have ne: "last ls \<noteq> []" and al: "is_letter (last (last ls)) \<or> is_digit (last (last ls))"
    by (simp_all add: spec_label_def)
  have "concat (map ((#) CHR ''.'') ls) =
        concat (map ((#) CHR ''.'') (butlast ls)) @ CHR ''.'' # last ls"
    by (subst ls) simp
  with a(1) ne have "last s = last (last ls)" by simp
  moreover from al have "last (last ls) \<noteq> CHR 0x0A" using label_char_not_sep by blast
  ultimately show ?thesis using a(1) by simp
qed

lemma one_at:
  assumes "CHR ''@'' \<notin> set l" "CHR ''@'' \<notin> set d"
  shows "str_split CHR ''@'' (l @ CHR ''@'' # d) = [l, d]"
    and "after_last CHR ''@'' (l @ CHR ''@'' # d) = d"
    and "length (filter (\<lambda>c. c = CHR ''@'') (l @ CHR ''@'' # d)) = 1"
proof -
  show "str_split CHR ''@'' (l @ CHR ''@'' # d) = [l, d]"
    using assms by (simp add: str_split_append str_split_no_sep)
  have "takeWhile (\<lambda>x. x \<noteq> CHR ''@'') (rev d @ CHR ''@'' # rev l) = rev d"
    using assms(2) by (auto simp: takeWhile_tail)
  then show "after_last CHR ''@'' (l @ CHR ''@'' # d) = d"
    by (simp add: after_last_def)
  from assms have "filter (\<lambda>c. c = CHR ''@'') l = []" "filter (\<lambda>c. c = CHR ''@'') d = []"
    by (auto simp: filter_empty_conv)
  then show "length (filter (\<lambda>c. c = CHR ''@'') (l @ CHR ''@'' # d)) = 1" by simp
qed

lemma check_syntax_split:
  assumes "check_syntax email"
  shows "\<exists>l d. email = l @ CHR ''@'' # d \<and> CHR ''@'' \<notin> set l \<and> CHR ''@'' \<notin> set d"
proof -
  from assms obtain a t where at: "spec_address a" "email = a @ t" "t = [] \<or> t = [CHR 0x0A]"
    unfolding check_syntax_iff by auto
  from spec_address_split[OF at(1)] obtain l d where
    ld: "a = l @ CHR ''@'' # d" "CHR ''@'' \<notin> set l" "CHR ''@'' \<notin> set d" by blast
  from at(3) have "CHR ''@'' \<notin> set t" by auto
  with ld at(2) have "email = l @ CHR ''@'' # (d @ t) \<and> CHR ''@'' \<notin> set l \<and> CHR ''@'' \<notin> set (d @ t)"
    by simp
  then show ?thesis by blast
qed

lemma check_syntax_domain_of:
  "check_syntax email \<Longrightarrow> domain_of email = Inr (after_last CHR ''@'' email)"
  by (drule check_syntax_split) (auto simp: domain_of_def one_at)

subsubsection \<open>What the validator accepts\<close>

text \<open>
  C7: the validator accepts exactly the strings of the specified shape. It does not: an
  address of the shape followed by one newline is accepted, because \<open>$\<close> matches before a
  final newline, and is not of the shape. By \<open>check_syntax_iff\<close> these are the only
  strings accepted outside the shape. The validator is a total function: it returns
  \<open>False\<close> on every other string and raises on none.
\<close>

theorem check_syntax_trailing_newline:
  "check_syntax (''user@example.com'' @ [CHR 0x0A]) \<and>
   \<not> spec_address (''user@example.com'' @ [CHR 0x0A])"
  by code_simp

text \<open>
  C10 as stated, that every accepted string is still accepted with one newline appended,
  fails at an accepted string that already ends in a newline.
\<close>

theorem check_syntax_double_newline:
  "check_syntax (''user@example.com'' @ [CHR 0x0A]) \<and>
   \<not> check_syntax ((''user@example.com'' @ [CHR 0x0A]) @ [CHR 0x0A])"
  by code_simp

text \<open>
  C10, amended: every accepted string that does not end in a newline is still accepted
  with one newline appended, and the longer string is outside the specified shape.
\<close>

theorem check_syntax_newline_appended:
  assumes "check_syntax s" and "last s \<noteq> CHR 0x0A"
  shows "check_syntax (s @ [CHR 0x0A]) \<and> \<not> spec_address (s @ [CHR 0x0A])"
proof -
  from assms have "spec_address s" unfolding check_syntax_iff by auto
  then have "check_syntax (s @ [CHR 0x0A])" unfolding check_syntax_iff by blast
  moreover have "\<not> spec_address (s @ [CHR 0x0A])"
    using spec_address_last[of "s @ [CHR 0x0A]"] by auto
  ultimately show ?thesis ..
qed

text \<open>C10, amended, at \<open>user@example.com\<close>.\<close>

theorem check_syntax_newline_appended_witness:
  "check_syntax ''user@example.com'' \<and> last ''user@example.com'' \<noteq> CHR 0x0A \<and>
   check_syntax (''user@example.com'' @ [CHR 0x0A]) \<and>
   \<not> spec_address (''user@example.com'' @ [CHR 0x0A])"
proof -
  have a: "check_syntax ''user@example.com''" by code_simp
  have b: "last ''user@example.com'' \<noteq> CHR 0x0A" by simp
  from check_syntax_newline_appended[OF a b] a b show ?thesis by simp
qed

subsection \<open>The orchestrator\<close>

text \<open>
  C9: for an address the validator accepts, \<open>email.split('@')[1]\<close> is what follows the last
  \<open>@\<close> of the address, the address has exactly one \<open>@\<close>, and this string is the argument
  of the call of \<open>check_mx_records\<close>, which is the first thing the body does to the outside.
\<close>

theorem domain_after_last_at:
  assumes "check_syntax email"
  shows "domain_of email = Inr (after_last CHR ''@'' email) \<and>
         length (filter (\<lambda>c. c = CHR ''@'') email) = 1 \<and>
         (\<exists>result rest. verify e email = (result, CheckMX (after_last CHR ''@'' email) # rest))"
proof -
  from check_syntax_split[OF assms] obtain l d where
    ld: "email = l @ CHR ''@'' # d" "CHR ''@'' \<notin> set l" "CHR ''@'' \<notin> set d" by blast
  have d: "domain_of email = Inr (after_last CHR ''@'' email)"
    using assms by (rule check_syntax_domain_of)
  have n: "length (filter (\<lambda>c. c = CHR ''@'') email) = 1"
    unfolding ld(1) using ld(2,3) by (rule one_at)
  have "\<exists>result rest. verify e email = (result, CheckMX (after_last CHR ''@'' email) # rest)"
    using assms d
    by (auto simp: verify_def Let_def split: sum.splits option.splits list.splits prod.splits)
  with d n show ?thesis by simp
qed

text \<open>
  C8: for an address the validator rejects, whatever the outside is, the row has
  \<open>OverallStatus = InvalidSyntax\<close>, \<open>DomainHasMX = False\<close> and
  \<open>MailboxExists = Unverifiable\<close>, and nothing is done to the outside: \<open>check_mx_records\<close>
  is not called and no host is connected to.
\<close>

theorem verify_invalid_syntax:
  assumes "\<not> check_syntax email"
  shows "verify e email =
           (Inr \<lparr>Email = email, SyntaxValid = False, DomainHasMX = False,
                 MailboxExists = Unverifiable, OverallStatus = InvalidSyntax\<rparr>, [])"
  using assms by (simp add: verify_def)

text \<open>
  C1: in every row the body produces, \<open>SyntaxValid\<close> is the result of the syntax check,
  \<open>OverallStatus\<close> is \<open>InvalidSyntax\<close> exactly when the check failed, and otherwise it is
  \<open>Valid\<close> exactly when \<open>DomainHasMX\<close> holds and \<open>MailboxExists\<close> is \<open>Exists\<close>, and
  \<open>RiskyOrInvalid\<close> in every other case; \<open>DomainHasMX\<close> holds exactly when the resolver
  returned a non-empty list for the domain of the address.
\<close>

theorem verify_overall_status:
  assumes "verify e email = (Inr row, events)"
  shows "SyntaxValid row = check_syntax email \<and>
         (OverallStatus row = InvalidSyntax \<longleftrightarrow> \<not> SyntaxValid row) \<and>
         (SyntaxValid row \<longrightarrow>
            (OverallStatus row = Valid \<longleftrightarrow> DomainHasMX row \<and> MailboxExists row = Exists) \<and>
            (OverallStatus row = RiskyOrInvalid \<longleftrightarrow>
               \<not> (DomainHasMX row \<and> MailboxExists row = Exists)) \<and>
            (DomainHasMX row \<longleftrightarrow>
               (\<exists>h hs. check_mx_records (env_idna e) (env_resolve e)
                          (after_last CHR ''@'' email) = Some (h # hs))))"
proof (cases "check_syntax email")
  case False
  with assms show ?thesis by (auto simp: verify_def)
next
  case True
  from check_syntax_domain_of[OF True] True assms show ?thesis
    by (auto simp: verify_def Let_def
             split: sum.splits option.splits list.splits prod.splits if_splits)
qed

text \<open>
  The body produces a row unless \<open>check_smtp\<close> lets an exception through, which is then an
  exception of the constructor that is not an \<open>OSError\<close>; \<open>email.split('@')[1]\<close> never
  raises on an address the validator accepts.
\<close>

lemma smtp_loop_escape:
  "smtp_loop net lh em k hosts = (Inl x, log) \<Longrightarrow> \<not> is_OSError x"
proof (induction hosts arbitrary: k log)
  case Nil
  then show ?case by simp
next
  case (Cons h hs)
  show ?case
  proof (cases "try_host (net k h) lh em")
    case (Classified st)
    with Cons.prems show ?thesis by simp
  next
    case (NextHost y)
    with Cons.prems Cons.IH[of "Suc k"] show ?thesis by (auto split: prod.splits)
  next
    case (Propagated y)
    with Cons.prems have "x = y" by simp
    with Propagated show ?thesis
      by (auto simp: try_host_def split: outcome.splits sum.splits if_splits)
  qed
qed

lemma check_smtp_escape:
  "check_smtp getfqdn net email mx_servers = (Inl x, log) \<Longrightarrow> \<not> is_OSError x"
  by (auto simp: check_smtp_def split: if_splits dest: smtp_loop_escape)

lemma verify_produces_row:
  "(\<exists>row events. verify e email = (Inr row, events)) \<or>
   (\<exists>x events. \<not> is_OSError x \<and> verify e email = (Inl (Uncaught x), events))"
proof (cases "check_syntax email")
  case False
  then show ?thesis by (simp add: verify_def)
next
  case True
  from check_syntax_domain_of[OF True] True show ?thesis
    by (auto simp: verify_def Let_def
             split: sum.splits option.splits list.splits prod.splits
             dest: check_smtp_escape)
qed

lemmas example_defs =
  example_env_def verify_def domain_of_def check_mx_records_def normalize_domain_def
  mx_hosts_def rstrip_def check_smtp_def try_host_def dialogue_def greet_def answering_def
  local_helo_of_def classify_def Let_def

text \<open>C1 at an example: the server answers 250 and the address is \<open>Valid\<close>.\<close>

theorem verify_overall_status_witness:
  "verify (example_env 250) ''user@good.test'' =
     (Inr \<lparr>Email = ''user@good.test'', SyntaxValid = True, DomainHasMX = True,
           MailboxExists = Exists, OverallStatus = Valid\<rparr>,
      [CheckMX ''good.test'', Connect ''mx.good.test'']) \<and>
   check_syntax ''user@good.test''"
proof -
  have cs: "check_syntax ''user@good.test''" by code_simp
  have run: "verify (example_env 250) ''user@good.test'' =
     (Inr \<lparr>Email = ''user@good.test'', SyntaxValid = True, DomainHasMX = True,
           MailboxExists = Exists, OverallStatus = Valid\<rparr>,
      [CheckMX ''good.test'', Connect ''mx.good.test''])"
    by (simp add: cs example_defs)
  from verify_overall_status[OF run] cs run show ?thesis by simp
qed

text \<open>C8 at an example: a space in the domain.\<close>

theorem verify_invalid_syntax_witness:
  "\<not> check_syntax ''user@ex ample.com'' \<and>
   verify (example_env 250) ''user@ex ample.com'' =
     (Inr \<lparr>Email = ''user@ex ample.com'', SyntaxValid = False, DomainHasMX = False,
           MailboxExists = Unverifiable, OverallStatus = InvalidSyntax\<rparr>, [])"
proof -
  have cs: "\<not> check_syntax ''user@ex ample.com''" by code_simp
  from verify_invalid_syntax[OF cs, of "example_env 250"] cs show ?thesis by simp
qed

text \<open>C9 at an example: a domain without MX records.\<close>

theorem domain_after_last_at_witness:
  "check_syntax ''first.last@mail.good.test'' \<and>
   domain_of ''first.last@mail.good.test'' = Inr ''mail.good.test'' \<and>
   after_last CHR ''@'' ''first.last@mail.good.test'' = ''mail.good.test'' \<and>
   verify (example_env 250) ''first.last@mail.good.test'' =
     (Inr \<lparr>Email = ''first.last@mail.good.test'', SyntaxValid = True, DomainHasMX = False,
           MailboxExists = Unverifiable, OverallStatus = RiskyOrInvalid\<rparr>,
      [CheckMX ''mail.good.test''])"
proof -
  have cs: "check_syntax ''first.last@mail.good.test''" by code_simp
  have al: "after_last CHR ''@'' ''first.last@mail.good.test'' = ''mail.good.test''"
    by (simp add: after_last_def)
  have run: "verify (example_env 250) ''first.last@mail.good.test'' =
     (Inr \<lparr>Email = ''first.last@mail.good.test'', SyntaxValid = True, DomainHasMX = False,
           MailboxExists = Unverifiable, OverallStatus = RiskyOrInvalid\<rparr>,
      [CheckMX ''mail.good.test''])"
    by (simp add: cs example_defs)
  from domain_after_last_at[OF cs, of "example_env 250"] cs al run show ?thesis by simp
qed

end
